theory Spec2Isabelle
  imports Complex_Main "HOL-Library.Word"
begin

section \<open>Text, bytes and the Python built-ins used by \<open>statusicon.py\<close>\<close>

text \<open>
  A Python \<open>bytes\<close> value is a list of 8-bit words and a Python \<open>str\<close> is the list of its
  code points. String literals of the source are written with \<open>lit\<close>, which maps an ASCII
  literal to its code points.
\<close>

type_synonym byte = "8 word"
type_synonym str = "nat list"

definition lit :: "string \<Rightarrow> str" where
  "lit cs = map of_char cs"

datatype error =
    UnicodeDecodeError
  | ValueError
  | IndexError
  | OverflowError
  | SystemExit int

text \<open>
  The outcome of a method call: it returns, or an exception propagates out of it. Either
  way the object is left in some state, since Python does not undo the assignments made
  before a \<open>raise\<close>.
\<close>

datatype 'a result = Returned 'a | Raised error 'a

subsection \<open>\<open>bytes.decode('utf-8')\<close>\<close>

text \<open>
  The strict UTF-8 decoder: shortest forms only, no surrogates, nothing above U+10FFFF.
  Any other byte sequence, including a sequence cut short, raises \<open>UnicodeDecodeError\<close>
  (\<open>None\<close> here).
\<close>

definition cont :: "nat \<Rightarrow> bool" where
  "cont b \<longleftrightarrow> 128 \<le> b \<and> b < 192"

definition utf8_first :: "nat list \<Rightarrow> (nat \<times> nat list) option" where
  \<comment> \<open>The first code point of a byte sequence and the bytes after it.\<close>
  "utf8_first bs =
     (case bs of
        [] \<Rightarrow> None
      | b0 # r0 \<Rightarrow>
          if b0 < 128 then Some (b0, r0)
          else if 194 \<le> b0 \<and> b0 < 224 then
            (case r0 of
               b1 # r \<Rightarrow>
                 if cont b1 then Some ((b0 - 192) * 64 + (b1 - 128), r) else None
             | _ \<Rightarrow> None)
          else if 224 \<le> b0 \<and> b0 < 240 then
            (case r0 of
               b1 # b2 # r \<Rightarrow>
                 if (if b0 = 224 then 160 \<le> b1 \<and> b1 < 192
                     else if b0 = 237 then 128 \<le> b1 \<and> b1 < 160
                     else cont b1) \<and> cont b2
                 then Some ((b0 - 224) * 4096 + (b1 - 128) * 64 + (b2 - 128), r)
                 else None
             | _ \<Rightarrow> None)
          else if 240 \<le> b0 \<and> b0 < 245 then
            (case r0 of
               b1 # b2 # b3 # r \<Rightarrow>
                 if (if b0 = 240 then 144 \<le> b1 \<and> b1 < 192
                     else if b0 = 244 then 128 \<le> b1 \<and> b1 < 144
                     else cont b1) \<and> cont b2 \<and> cont b3
                 then Some ((b0 - 240) * 262144 + (b1 - 128) * 4096 + (b2 - 128) * 64
                            + (b3 - 128), r)
                 else None
             | _ \<Rightarrow> None)
          else None)"

lemma utf8_first_shorter: "utf8_first bs = Some (c, r) \<Longrightarrow> length r < length bs"
  by (auto simp: utf8_first_def split: list.splits if_splits)

function utf8 :: "nat list \<Rightarrow> str option" where
  "utf8 bs =
     (if bs = [] then Some []
      else case utf8_first bs of
             None \<Rightarrow> None
           | Some (c, r) \<Rightarrow> map_option ((#) c) (utf8 r))"
  by pat_completeness auto
termination
  by (relation "measure length") (auto dest: utf8_first_shorter)

declare utf8.simps [simp del]

definition decode_utf8 :: "byte list \<Rightarrow> str option" where
  "decode_utf8 bs = utf8 (map unat bs)"

subsection \<open>\<open>str.partition\<close>, \<open>str.rstrip\<close>, \<open>str.split\<close>\<close>

definition partition_str :: "nat \<Rightarrow> str \<Rightarrow> str \<times> str \<times> str" where
  \<comment> \<open>\<open>s.partition(c)\<close> for a one-character separator: the text before the first
      occurrence, the separator, the text after it; \<open>(s, '', '')\<close> when there is none.\<close>
  "partition_str c s =
     (case dropWhile (\<lambda>x. x \<noteq> c) s of
        [] \<Rightarrow> (s, [], [])
      | _ # after \<Rightarrow> (takeWhile (\<lambda>x. x \<noteq> c) s, [c], after))"

definition rstrip :: "str \<Rightarrow> str \<Rightarrow> str" where
  \<comment> \<open>\<open>s.rstrip(chars)\<close>: drop every trailing character that occurs in \<open>chars\<close>.\<close>
  "rstrip chars s = rev (dropWhile (\<lambda>x. x \<in> set chars) (rev s))"

fun split_from :: "nat \<Rightarrow> nat \<Rightarrow> str \<Rightarrow> str \<Rightarrow> str list" where
  \<comment> \<open>\<open>s.split(sep)\<close> for the two-character separator \<open>a b\<close>, scanning left to right;
      \<open>cur\<close> is the part read since the last separator.\<close>
  "split_from a b cur [] = [cur]"
| "split_from a b cur [x] = [cur @ [x]]"
| "split_from a b cur (x # y # s) =
     (if x = a \<and> y = b then cur # split_from a b [] s
      else split_from a b (cur @ [x]) (y # s))"

definition split_comma_space :: "str \<Rightarrow> str list" where
  \<comment> \<open>\<open>value.split(', ')\<close>\<close>
  "split_comma_space s = split_from 44 32 [] s"

subsection \<open>What the Python runtime decides\<close>

text \<open>
  The character tables of the interpreter are not part of the repository. On ASCII they
  are fixed; above ASCII they are a parameter of the model, so that every theorem holds
  whatever the tables say there. \<open>rt_max_str_digits\<close> is the interpreter's limit on the
  number of digits \<open>int\<close> converts (\<open>0\<close>: no limit); it is only consulted for more
  than 640 digits.
\<close>

record runtime =
  rt_isalnum :: "nat \<Rightarrow> bool"
  rt_isspace :: "nat \<Rightarrow> bool"
  rt_decimal :: "nat \<Rightarrow> nat option"
  rt_max_str_digits :: nat

definition ascii_digit :: "nat \<Rightarrow> bool" where
  "ascii_digit c \<longleftrightarrow> 48 \<le> c \<and> c \<le> 57"

definition ascii_alnum :: "nat \<Rightarrow> bool" where
  "ascii_alnum c \<longleftrightarrow> ascii_digit c \<or> (65 \<le> c \<and> c \<le> 90) \<or> (97 \<le> c \<and> c \<le> 122)"

definition ascii_space :: "nat \<Rightarrow> bool" where
  "ascii_space c \<longleftrightarrow> c = 32 \<or> (9 \<le> c \<and> c \<le> 13)"

definition word_char :: "runtime \<Rightarrow> nat \<Rightarrow> bool" where
  \<comment> \<open>\<open>\w\<close> of a \<open>str\<close> pattern: alphanumeric or underscore.\<close>
  "word_char rt c \<longleftrightarrow> (if c < 128 then ascii_alnum c \<or> c = 95 else rt_isalnum rt c)"

subsection \<open>\<open>re.match(r'([\w ]+): (.+)', line)\<close>\<close>

text \<open>
  The match is anchored at the start of the line. The key group is greedy and the
  character after it must be a colon, which is not in the class, so only the longest run
  of class characters can be the key. The value group is the longest run of characters
  other than a line feed, and must not be empty. The result is \<open>(group(1), group(2))\<close>.
\<close>

definition key_char :: "runtime \<Rightarrow> nat \<Rightarrow> bool" where
  "key_char rt c \<longleftrightarrow> word_char rt c \<or> c = 32"

definition re_match :: "runtime \<Rightarrow> str \<Rightarrow> (str \<times> str) option" where
  "re_match rt line =
     (let key = takeWhile (key_char rt) line;
          rest = dropWhile (key_char rt) line
      in if key = [] then None
         else case rest of
                c1 # c2 # remainder \<Rightarrow>
                  if c1 = 58 \<and> c2 = 32 \<and> takeWhile (\<lambda>c. c \<noteq> 10) remainder \<noteq> []
                  then Some (key, takeWhile (\<lambda>c. c \<noteq> 10) remainder)
                  else None
              | _ \<Rightarrow> None)"

subsection \<open>\<open>int(text, 10)\<close>\<close>

text \<open>
  \<open>int\<close> first brings the text to ASCII: characters below 127 stay, a space of the
  runtime's table becomes a blank, a decimal digit becomes its ASCII digit, and at
  anything else the text is cut with a question mark. Then: blanks, an optional sign,
  digits with single underscores between them, blanks, end of text.
\<close>

fun to_ascii :: "runtime \<Rightarrow> str \<Rightarrow> str" where
  "to_ascii rt [] = []"
| "to_ascii rt (c # cs) =
     (if c < 127 then c # to_ascii rt cs
      else if rt_isspace rt c then 32 # to_ascii rt cs
      else case rt_decimal rt c of
             Some d \<Rightarrow> if d < 10 then (48 + d) # to_ascii rt cs else [63]
           | None \<Rightarrow> [63])"

fun digits_value :: "int \<Rightarrow> str \<Rightarrow> int" where
  \<comment> \<open>Horner evaluation of the digits of a run of digits and underscores.\<close>
  "digits_value acc [] = acc"
| "digits_value acc (c # cs) =
     (if ascii_digit c then digits_value (acc * 10 + int (c - 48)) cs
      else digits_value acc cs)"

fun doubled_underscore :: "str \<Rightarrow> bool" where
  "doubled_underscore (x # y # s) \<longleftrightarrow> (x = 95 \<and> y = 95) \<or> doubled_underscore (y # s)"
| "doubled_underscore _ \<longleftrightarrow> False"

definition int10 :: "runtime \<Rightarrow> str \<Rightarrow> int option" where
  "int10 rt text =
     (let a = dropWhile ascii_space (to_ascii rt text);
          neg = (take 1 a = [45]);
          b = (if take 1 a = [43] \<or> take 1 a = [45] then drop 1 a else a);
          run = takeWhile (\<lambda>c. ascii_digit c \<or> c = 95) b;
          after = dropWhile (\<lambda>c. ascii_digit c \<or> c = 95) b
      in if run = [] \<or> hd run = 95 \<or> last run = 95 \<or> doubled_underscore run
            \<or> (640 < length (filter ascii_digit run) \<and> 0 < rt_max_str_digits rt
                \<and> rt_max_str_digits rt < length (filter ascii_digit run))
            \<or> dropWhile ascii_space after \<noteq> []
         then None
         else Some (if neg then - digits_value 0 run else digits_value 0 run))"

section \<open>The status icon and what it acts on\<close>

text \<open>
  \<open>_location\<close> starts as the tuple \<open>(0.0, 0.0)\<close> and is later assigned whatever
  \<open>change_location\<close> receives, which is the list that \<open>str.split\<close> returns.
\<close>

datatype location = TupleOfFloats real real | ListOfStr "str list"

text \<open>
  The fields of \<open>RedshiftStatusIcon\<close> that the callbacks read or write, followed by what
  they act on outside the object: the check state of \<open>toggle_item\<close>, the \<open>SIGUSR1\<close>
  signals sent to the child with \<open>os.kill\<close>, the timeout sources of the GLib main loop
  (identifier, second at which it was armed, interval in seconds), the next free source
  identifier, the clock in seconds, whether \<open>Gtk.main_quit\<close> was called and the markup of
  the error dialog once it was run. Labels and icons only display these fields and are
  left out.
\<close>

record icon =
  priv_status :: bool
  priv_temperature :: int
  priv_period :: str
  priv_location :: location
  suspend_timer :: "nat option"
  input_buffer :: str
  error_buffer :: str
  errors :: str
  toggle_item_active :: bool
  usr1_sent :: nat
  timeouts :: "(nat \<times> nat \<times> nat) list"
  next_source :: nat
  clock :: nat
  main_quit :: bool
  error_dialog :: "str option"

definition init :: icon where
  \<comment> \<open>The state \<open>__init__\<close> leaves, the three watches on the child being sources 1 to 3.\<close>
  "init =
     \<lparr>priv_status = False, priv_temperature = 0, priv_period = lit ''Unknown'',
      priv_location = TupleOfFloats 0 0, suspend_timer = None,
      input_buffer = [], error_buffer = [], errors = [],
      toggle_item_active = False, usr1_sent = 0, timeouts = [], next_source = 4,
      clock = 0, main_quit = False, error_dialog = None\<rparr>"

subsection \<open>Toggling the child and the suspend timer\<close>

definition is_enabled :: "icon \<Rightarrow> bool" where
  "is_enabled s = priv_status s"

definition child_toggle_status :: "icon \<Rightarrow> icon" where
  \<comment> \<open>\<open>os.kill(self.process[0], signal.SIGUSR1)\<close>\<close>
  "child_toggle_status s = s\<lparr>usr1_sent := Suc (usr1_sent s)\<rparr>"

definition source_remove :: "nat \<Rightarrow> icon \<Rightarrow> icon" where
  \<comment> \<open>\<open>GLib.source_remove\<close>: the source with this identifier, if there is one, is destroyed.\<close>
  "source_remove i s = s\<lparr>timeouts := filter (\<lambda>t. fst t \<noteq> i) (timeouts s)\<rparr>"

definition timeout_add_seconds :: "nat \<Rightarrow> icon \<Rightarrow> nat \<times> icon" where
  \<comment> \<open>\<open>GLib.timeout_add_seconds\<close>: a new source, armed now, under a fresh identifier.\<close>
  "timeout_add_seconds interval s =
     (next_source s,
      s\<lparr>timeouts := timeouts s @ [(next_source s, clock s, interval)],
        next_source := Suc (next_source s)\<rparr>)"

definition remove_suspend_timer :: "icon \<Rightarrow> icon" where
  "remove_suspend_timer s =
     (case suspend_timer s of
        None \<Rightarrow> s
      | Some i \<Rightarrow> (source_remove i s)\<lparr>suspend_timer := None\<rparr>)"

definition reenable_cb :: "icon \<Rightarrow> icon" where
  "reenable_cb s = (if \<not> is_enabled s then child_toggle_status s else s)"

definition suspend_cb :: "int \<Rightarrow> icon \<Rightarrow> icon result" where
  \<comment> \<open>The interval is a C \<open>guint\<close>: a product outside its range is refused by the binding
      with \<open>OverflowError\<close>, after the timer before it was removed.\<close>
  "suspend_cb minutes s =
     (let s1 = (if is_enabled s then child_toggle_status s else s);
          s2 = remove_suspend_timer s1
      in if 0 \<le> minutes * 60 \<and> minutes * 60 < 2 ^ 32
         then case timeout_add_seconds (nat (minutes * 60)) s2 of
                (i, s3) \<Rightarrow> Returned (s3\<lparr>suspend_timer := Some i\<rparr>)
         else Raised OverflowError s2)"

definition toggle_cb :: "icon \<Rightarrow> icon" where
  "toggle_cb s = child_toggle_status (remove_suspend_timer s)"

definition toggle_item_cb :: "icon \<Rightarrow> icon" where
  \<comment> \<open>\<open>widget.get_active()\<close> is the check state of \<open>toggle_item\<close>, the only widget this
      callback is connected to.\<close>
  "toggle_item_cb s =
     (if is_enabled s \<noteq> toggle_item_active s
      then child_toggle_status (remove_suspend_timer s)
      else s)"

definition timeout_dispatch :: "nat \<Rightarrow> icon \<Rightarrow> icon" where
  \<comment> \<open>The main loop runs a timeout source that is due. The only callback ever attached
      to one is \<open>reenable_cb\<close>, which returns \<open>None\<close>, so the source is destroyed after
      its first run.\<close>
  "timeout_dispatch i s =
     (case filter (\<lambda>t. fst t = i) (timeouts s) of
        [] \<Rightarrow> s
      | (_, armed, interval) # _ \<Rightarrow>
          if armed + interval \<le> clock s then source_remove i (reenable_cb s) else s)"

subsection \<open>Recording what the child reports\<close>

definition set_active :: "bool \<Rightarrow> icon \<Rightarrow> icon" where
  \<comment> \<open>\<open>toggle_item.set_active\<close>: a change of the check state activates the item, which
      runs the connected \<open>toggle_item_cb\<close>.\<close>
  "set_active b s =
     (if toggle_item_active s = b then s
      else toggle_item_cb (s\<lparr>toggle_item_active := b\<rparr>))"

definition change_status :: "bool \<Rightarrow> icon \<Rightarrow> icon" where
  "change_status status s =
     (let s1 = s\<lparr>priv_status := status\<rparr> in set_active (is_enabled s1) s1)"

definition change_temperature :: "int \<Rightarrow> icon \<Rightarrow> icon" where
  "change_temperature temperature s = s\<lparr>priv_temperature := temperature\<rparr>"

definition change_period :: "str \<Rightarrow> icon \<Rightarrow> icon" where
  "change_period period s = s\<lparr>priv_period := period\<rparr>"

definition change_location :: "str list \<Rightarrow> icon \<Rightarrow> icon result" where
  \<comment> \<open>The label text is \<open>'<b>{}:</b> {}, {}'.format(_('Location'), *location)\<close>, which
      raises \<open>IndexError\<close> when \<open>location\<close> has fewer than two items; the field is
      assigned before.\<close>
  "change_location loc s =
     (let s1 = s\<lparr>priv_location := ListOfStr loc\<rparr>
      in if length loc < 2 then Raised IndexError s1 else Returned s1)"

definition child_key_change_cb :: "runtime \<Rightarrow> str \<Rightarrow> str \<Rightarrow> icon \<Rightarrow> icon result" where
  "child_key_change_cb rt key val s =
     (if key = lit ''Status'' then Returned (change_status (val \<noteq> lit ''Disabled'') s)
      else if key = lit ''Color temperature'' then
        (case int10 rt (rstrip (lit ''K'') val) of
           None \<Rightarrow> Raised ValueError s
         | Some t \<Rightarrow> Returned (change_temperature t s))
      else if key = lit ''Period'' then Returned (change_period val s)
      else if key = lit ''Location'' then change_location (split_comma_space val) s
      else Returned s)"

definition child_stdout_line_cb :: "runtime \<Rightarrow> str \<Rightarrow> icon \<Rightarrow> icon result" where
  "child_stdout_line_cb rt line s =
     (if line \<noteq> [] then
        (case re_match rt line of
           Some (key, val) \<Rightarrow> child_key_change_cb rt key val s
         | None \<Rightarrow> Returned s)
      else Returned s)"

subsection \<open>Reading the child's output\<close>

text \<open>
  \<open>child_data_cb\<close> is registered twice: with \<open>(True, input_buffer)\<close> on the child's
  standard output and with \<open>(False, error_buffer)\<close> on its standard error. The flag
  therefore tells which buffer \<open>ib\<close> is.
\<close>

definition ib_buf :: "bool \<Rightarrow> icon \<Rightarrow> str" where
  "ib_buf stdout s = (if stdout then input_buffer s else error_buffer s)"

definition ib_assign :: "bool \<Rightarrow> str \<Rightarrow> icon \<Rightarrow> icon" where
  "ib_assign stdout b s = (if stdout then s\<lparr>input_buffer := b\<rparr> else s\<lparr>error_buffer := b\<rparr>)"

lemma partition_str_shorter:
  "(first, sep, rest) = partition_str c b \<Longrightarrow> sep \<noteq> [] \<Longrightarrow> length rest < length b"
proof -
  assume "(first, sep, rest) = partition_str c b" and n: "sep \<noteq> []"
  then have p: "partition_str c b = (first, sep, rest)" by simp
  from p n obtain x where d: "dropWhile (\<lambda>x. x \<noteq> c) b = x # rest"
    by (auto simp: partition_str_def split: list.splits)
  have "length (dropWhile (\<lambda>x. x \<noteq> c) b) \<le> length b"
    by (rule length_dropWhile_le)
  with d show ?thesis by simp
qed

lemma toggle_item_cb_input_buffer: "input_buffer (toggle_item_cb s) = input_buffer s"
  by (simp add: toggle_item_cb_def child_toggle_status_def remove_suspend_timer_def
      source_remove_def split: option.splits)

lemma child_stdout_line_cb_input_buffer:
  "child_stdout_line_cb rt line s = Returned s' \<Longrightarrow> input_buffer s' = input_buffer s"
  by (auto simp: child_stdout_line_cb_def child_key_change_cb_def change_status_def
      set_active_def toggle_item_cb_input_buffer change_temperature_def change_period_def
      change_location_def Let_def split: if_splits option.splits)

function line_loop :: "runtime \<Rightarrow> bool \<Rightarrow> icon \<Rightarrow> icon result" where
  \<comment> \<open>The \<open>while True\<close> loop of \<open>child_data_cb\<close>.\<close>
  "line_loop rt stdout s =
     (case partition_str 10 (ib_buf stdout s) of
        (first, sep, rest) \<Rightarrow>
          if sep = [] then Returned s
          else if stdout then
            (case child_stdout_line_cb rt first (ib_assign stdout rest s) of
               Returned s' \<Rightarrow> line_loop rt stdout s'
             | Raised e s' \<Rightarrow> Raised e s')
          else
            line_loop rt stdout
              ((ib_assign stdout rest s)
                 \<lparr>errors := errors (ib_assign stdout rest s) @ first @ [10]\<rparr>))"
  by pat_completeness auto
termination
  by (relation "measure (\<lambda>(rt, stdout, s). length (ib_buf stdout s))")
    (auto simp: ib_buf_def ib_assign_def dest!: child_stdout_line_cb_input_buffer
      dest: partition_str_shorter)

declare line_loop.simps [simp del]

definition child_data_cb :: "runtime \<Rightarrow> bool \<Rightarrow> byte list \<Rightarrow> icon \<Rightarrow> icon result" where
  \<comment> \<open>\<open>chunk\<close> is what \<open>os.read(f, 256)\<close> returned.\<close>
  "child_data_cb rt stdout chunk s =
     (case decode_utf8 chunk of
        None \<Rightarrow> Raised UnicodeDecodeError s
      | Some text \<Rightarrow> line_loop rt stdout (ib_assign stdout (ib_buf stdout s @ text) s))"

subsection \<open>The child exits\<close>

datatype wait_status = Exited nat | Signaled nat

definition spawn_check_exit_status :: "wait_status \<Rightarrow> bool" where
  \<comment> \<open>\<open>GLib.spawn_check_exit_status\<close> raises \<open>GError\<close> (\<open>False\<close> here) unless the child
      exited with code 0.\<close>
  "spawn_check_exit_status status \<longleftrightarrow> status = Exited 0"

lemma decode_utf8_Nil: "decode_utf8 [] = Some []"
  by (simp add: decode_utf8_def utf8.simps)

function drain :: "bool \<Rightarrow> byte list \<Rightarrow> icon \<Rightarrow> icon result" where
  \<comment> \<open>The inner \<open>while True\<close> loop of \<open>child_cb\<close> on one descriptor; \<open>pending\<close> is what the
      dead child left in the pipe, and \<open>to_errors\<close> is \<open>dest is sys.stderr\<close>.\<close>
  "drain to_errors pending s =
     (case decode_utf8 (take 256 pending) of
        None \<Rightarrow> Raised UnicodeDecodeError s
      | Some buf \<Rightarrow>
          if buf = [] then Returned s
          else drain to_errors (drop 256 pending)
                 (if to_errors then s\<lparr>errors := errors s @ buf\<rparr> else s))"
  by pat_completeness auto
termination
proof (relation "measure (\<lambda>(to_errors, pending, s). length pending)", goal_cases)
  case 1
  show ?case by simp
next
  case (2 to_errors pending s buf)
  then have "pending \<noteq> []"
    by (auto simp: decode_utf8_Nil)
  then show ?case by simp
qed

declare drain.simps [simp del]

definition child_cb :: "wait_status \<Rightarrow> byte list \<Rightarrow> byte list \<Rightarrow> icon \<Rightarrow> icon result" where
  \<comment> \<open>\<open>sys.exit(-1)\<close> after the dialog is the exception \<open>SystemExit(-1)\<close>.\<close>
  "child_cb status out_pending err_pending s =
     (case drain False out_pending s of
        Raised e s1 \<Rightarrow> Raised e s1
      | Returned s1 \<Rightarrow>
          (case drain True err_pending s1 of
             Raised e s2 \<Rightarrow> Raised e s2
           | Returned s2 \<Rightarrow>
               if spawn_check_exit_status status then Returned (s2\<lparr>main_quit := True\<rparr>)
               else Raised (SystemExit (- 1))
                      (s2\<lparr>error_dialog :=
                            Some (lit ''<b>Failed to run Redshift</b>'' @ [10] @ lit ''<i>''
                                  @ errors s2 @ lit ''</i>'')\<rparr>)))"

subsection \<open>Callbacks in sequence\<close>

primrec state_after :: "'a result \<Rightarrow> 'a" where
  \<comment> \<open>The state a call leaves, whether it returned or raised.\<close>
  "state_after (Returned s) = s"
| "state_after (Raised e s) = s"

fun feed_chunks :: "runtime \<Rightarrow> bool \<Rightarrow> byte list list \<Rightarrow> icon \<Rightarrow> icon result" where
  \<comment> \<open>\<open>child_data_cb\<close> called once for each chunk read from one stream, up to the first
      call that raises.\<close>
  "feed_chunks rt stdout [] s = Returned s"
| "feed_chunks rt stdout (c # cs) s =
     (case child_data_cb rt stdout c s of
        Returned s' \<Rightarrow> feed_chunks rt stdout cs s'
      | Raised e s' \<Rightarrow> Raised e s')"

fun unfed_chunks :: "runtime \<Rightarrow> bool \<Rightarrow> byte list list \<Rightarrow> icon \<Rightarrow> byte list list" where
  \<comment> \<open>The chunks that \<open>feed_chunks\<close> has not passed to \<open>child_data_cb\<close>: those after the
      chunk whose call raised, none when every call returned.\<close>
  "unfed_chunks rt stdout [] s = []"
| "unfed_chunks rt stdout (c # cs) s =
     (case child_data_cb rt stdout c s of
        Returned s' \<Rightarrow> unfed_chunks rt stdout cs s'
      | Raised e s' \<Rightarrow> cs)"

text \<open>
  What the main loop can run while the child lives: a suspend menu entry, a click on the
  status icon, a click on the check item (which flips its check state and then activates
  it), a timeout source coming due, time passing, and data on one of the two streams. An
  exception raised by a callback is reported by the main loop, which then goes on with
  the object as the callback left it.
\<close>

datatype event =
    Suspend int
  | Toggle
  | ToggleItem
  | Timeout nat
  | Elapse nat
  | Data bool "byte list"

fun step :: "runtime \<Rightarrow> event \<Rightarrow> icon \<Rightarrow> icon" where
  "step rt (Suspend minutes) s = state_after (suspend_cb minutes s)"
| "step rt Toggle s = toggle_cb s"
| "step rt ToggleItem s = toggle_item_cb (s\<lparr>toggle_item_active := \<not> toggle_item_active s\<rparr>)"
| "step rt (Timeout i) s = timeout_dispatch i s"
| "step rt (Elapse n) s = s\<lparr>clock := clock s + n\<rparr>"
| "step rt (Data stdout chunk) s = state_after (child_data_cb rt stdout chunk s)"

primrec run :: "runtime \<Rightarrow> event list \<Rightarrow> icon \<Rightarrow> icon" where
  "run rt [] s = s"
| "run rt (e # es) s = run rt es (step rt e s)"

subsection \<open>Concrete inputs\<close>

definition ascii_only :: runtime where
  \<comment> \<open>A runtime whose tables hold nothing above ASCII, with the default digit limit.\<close>
  "ascii_only =
     \<lparr>rt_isalnum = (\<lambda>_. False), rt_isspace = (\<lambda>_. False), rt_decimal = (\<lambda>_. None),
      rt_max_str_digits = 4300\<rparr>"

definition ascii_bytes :: "string \<Rightarrow> byte list" where
  \<comment> \<open>The bytes of an ASCII literal.\<close>
  "ascii_bytes cs = map of_char cs"

fun join_comma_space :: "str list \<Rightarrow> str" where
  \<comment> \<open>\<open>', '.join(parts)\<close>\<close>
  "join_comma_space [] = []"
| "join_comma_space [p] = p"
| "join_comma_space (p # q # ps) = p @ lit '', '' @ join_comma_space (q # ps)"

subsection \<open>Predicates on states\<close>

text \<open>
  \<open>env\<close> collects the timer fields, the clock and the signal count, which decoding the
  child's output never touches. \<open>one_timer\<close>: at most one timeout source is pending, it is
  the one \<open>suspend_timer\<close> names, and the name is an identifier already given out.
  \<open>ids_above k\<close>: every pending source, and every source still to come, has an identifier
  above \<open>k\<close>.
\<close>

definition env :: "icon \<Rightarrow> nat option \<times> (nat \<times> nat \<times> nat) list \<times> nat \<times> nat \<times> nat" where
  "env s = (suspend_timer s, timeouts s, next_source s, clock s, usr1_sent s)"


definition one_timer :: "icon \<Rightarrow> bool" where
  "one_timer s \<longleftrightarrow>
     length (timeouts s) \<le> 1
     \<and> (\<forall>t \<in> set (timeouts s). suspend_timer s = Some (fst t))
     \<and> (\<forall>i. suspend_timer s = Some i \<longrightarrow> i < next_source s)"

definition ids_above :: "nat \<Rightarrow> icon \<Rightarrow> bool" where
  "ids_above k s \<longleftrightarrow> k < next_source s \<and> (\<forall>t \<in> set (timeouts s). k < fst t)"

section \<open>Decoding the lines of standard output\<close>

lemma change_status_eq:
  "change_status b s = s\<lparr>priv_status := b, toggle_item_active := b\<rparr>"
  by (cases s) (simp add: change_status_def set_active_def toggle_item_cb_def is_enabled_def Let_def)

lemmas char_defs = lit_def key_char_def word_char_def ascii_alnum_def ascii_digit_def ascii_space_def

lemma takeWhile_no_lf: "10 \<notin> set v \<Longrightarrow> takeWhile (\<lambda>c. c \<noteq> (10::nat)) v = v"
  by (induction v) auto

lemma re_match_status: "v \<noteq> [] \<Longrightarrow> 10 \<notin> set v \<Longrightarrow> re_match rt (lit ''Status: '' @ v) = Some (lit ''Status'', v)"
  by (simp add: re_match_def char_defs takeWhile_no_lf)

text \<open>
  C2. Decoding the stdout line \<open>Status: Disabled\<close> sets the enabled flag to false, and a
  \<open>Status\<close> line with any other value sets it to true (the check item follows the flag);
  \<open>Color temperature: 4500K\<close> sets the temperature to the integer 4500; \<open>Period: Night\<close>
  sets the period to the string \<open>Night\<close>. No other field changes, whatever the runtime's
  tables and the state before.
\<close>

theorem decode_status_temperature_period:
  "child_stdout_line_cb rt (lit ''Status: Disabled'') s
     = Returned (s\<lparr>priv_status := False, toggle_item_active := False\<rparr>)
   \<and> (v \<noteq> [] \<and> 10 \<notin> set v \<and> v \<noteq> lit ''Disabled'' \<longrightarrow>
        child_stdout_line_cb rt (lit ''Status: '' @ v) s
          = Returned (s\<lparr>priv_status := True, toggle_item_active := True\<rparr>))
   \<and> child_stdout_line_cb rt (lit ''Color temperature: 4500K'') s
        = Returned (s\<lparr>priv_temperature := 4500\<rparr>)
   \<and> child_stdout_line_cb rt (lit ''Period: Night'') s
        = Returned (s\<lparr>priv_period := lit ''Night''\<rparr>)"
proof (intro conjI impI)
  show "child_stdout_line_cb rt (lit ''Status: Disabled'') s
     = Returned (s\<lparr>priv_status := False, toggle_item_active := False\<rparr>)"
    by (simp add: child_stdout_line_cb_def re_match_def char_defs child_key_change_cb_def
        change_status_eq)
next
  assume "v \<noteq> [] \<and> 10 \<notin> set v \<and> v \<noteq> lit ''Disabled''"
  then show "child_stdout_line_cb rt (lit ''Status: '' @ v) s
          = Returned (s\<lparr>priv_status := True, toggle_item_active := True\<rparr>)"
    using re_match_status [of v rt]
    by (simp add: child_stdout_line_cb_def child_key_change_cb_def change_status_eq)
next
  show "child_stdout_line_cb rt (lit ''Color temperature: 4500K'') s
        = Returned (s\<lparr>priv_temperature := 4500\<rparr>)"
    by (simp add: child_stdout_line_cb_def re_match_def char_defs child_key_change_cb_def
        change_temperature_def int10_def rstrip_def)
next
  show "child_stdout_line_cb rt (lit ''Period: Night'') s
        = Returned (s\<lparr>priv_period := lit ''Night''\<rparr>)"
    by (simp add: child_stdout_line_cb_def re_match_def char_defs child_key_change_cb_def
        change_period_def)
qed

theorem decode_status_temperature_period_witness:
  "priv_status (state_after (child_stdout_line_cb ascii_only (lit ''Status: Enabled'') init))
   \<and> \<not> priv_status (state_after (child_stdout_line_cb ascii_only (lit ''Status: Disabled'')
         (state_after (child_stdout_line_cb ascii_only (lit ''Status: Enabled'') init))))
   \<and> priv_temperature
        (state_after (child_stdout_line_cb ascii_only (lit ''Color temperature: 4500K'') init))
      = 4500
   \<and> priv_period (state_after (child_stdout_line_cb ascii_only (lit ''Period: Night'') init))
      = lit ''Night''"
proof -
  have e: "lit ''Enabled'' \<noteq> [] \<and> 10 \<notin> set (lit ''Enabled'') \<and> lit ''Enabled'' \<noteq> lit ''Disabled''"
    by (simp add: lit_def)
  have l: "lit ''Status: '' @ lit ''Enabled'' = lit ''Status: Enabled''"
    by (simp add: lit_def)
  show ?thesis
    using e decode_status_temperature_period [of ascii_only init "lit ''Enabled''"]
      decode_status_temperature_period
        [of ascii_only "init\<lparr>priv_status := True, toggle_item_active := True\<rparr>" "lit ''Enabled''"]
    by (simp add: l)
qed

text \<open>
  C4. A stdout line that is not of the shape "one or more word characters or blanks, a
  colon, a blank, a non-empty remainder" is ignored: the callback returns and the state,
  with every field of it, is the one before.
\<close>

theorem unmatched_line_ignored:
  "\<not> (\<exists>key val. key \<noteq> [] \<and> (\<forall>c \<in> set key. key_char rt c) \<and> val \<noteq> []
         \<and> line = key @ lit '': '' @ val)
   \<Longrightarrow> child_stdout_line_cb rt line s = Returned s"
proof (cases "re_match rt line")
  case None
  then show ?thesis by (simp add: child_stdout_line_cb_def)
next
  case (Some kv)
  assume noshape: "\<not> (\<exists>key val. key \<noteq> [] \<and> (\<forall>c \<in> set key. key_char rt c) \<and> val \<noteq> []
         \<and> line = key @ lit '': '' @ val)"
  let ?k = "takeWhile (key_char rt) line"
  let ?r = "dropWhile (key_char rt) line"
  from Some have k: "?k \<noteq> []"
    by (auto simp: re_match_def Let_def split: if_splits)
  from Some obtain rm where r: "?r = 58 # 32 # rm"
    and tw: "takeWhile (\<lambda>c. c \<noteq> 10) rm \<noteq> []"
    by (auto simp: re_match_def Let_def split: if_splits list.splits)
  from tw have t: "rm \<noteq> []" by auto
  have "line = ?k @ ?r" by simp
  with r have "line = ?k @ lit '': '' @ rm" by (simp add: lit_def)
  moreover have "\<forall>c \<in> set ?k. key_char rt c"
    by (auto dest: set_takeWhileD)
  ultimately have "\<exists>key val. key \<noteq> [] \<and> (\<forall>c \<in> set key. key_char rt c) \<and> val \<noteq> []
         \<and> line = key @ lit '': '' @ val"
    using k t by blast
  with noshape show ?thesis by contradiction
qed


theorem unmatched_line_ignored_witness:
  "child_stdout_line_cb ascii_only (lit ''garbage line without colon'') init = Returned init
   \<and> child_stdout_line_cb ascii_only [] init = Returned init"
proof -
  have a: "\<not> (\<exists>key val. key \<noteq> [] \<and> (\<forall>c \<in> set key. key_char ascii_only c) \<and> val \<noteq> []
         \<and> lit ''garbage line without colon'' = key @ lit '': '' @ val)"
  proof
    assume "\<exists>key val. key \<noteq> [] \<and> (\<forall>c \<in> set key. key_char ascii_only c) \<and> val \<noteq> []
         \<and> lit ''garbage line without colon'' = key @ lit '': '' @ val"
    then obtain key val where "lit ''garbage line without colon'' = key @ lit '': '' @ val"
      by blast
    then have "set (lit ''garbage line without colon'') = set (key @ lit '': '' @ val)"
      by simp
    then have "58 \<in> set (lit ''garbage line without colon'')"
      by (simp add: lit_def)
    then show False by (simp add: lit_def)
  qed
  have b: "\<not> (\<exists>key val. key \<noteq> [] \<and> (\<forall>c \<in> set key. key_char ascii_only c) \<and> val \<noteq> []
         \<and> [] = key @ lit '': '' @ val)"
    by simp
  show ?thesis
    using unmatched_line_ignored [OF a, of init] unmatched_line_ignored [OF b, of init]
    by simp
qed

subsection \<open>The location\<close>

lemma split_from_Cons: "\<exists>p ps. split_from a b cur s = p # ps"
  by (induction a b cur s rule: split_from.induct) auto

lemma join_split_from: "join_comma_space (split_from 44 32 cur s) = cur @ s"
proof (induction "44::nat" "32::nat" cur s rule: split_from.induct)
  case (3 cur x y s)
  obtain p ps where "split_from 44 32 [] s = p # ps"
    using split_from_Cons by blast
  with 3 show ?case by (auto simp: lit_def)
qed auto


lemma re_match_location:
  "re_match rt (lit ''Location: 51.50, -0.12'') = Some (lit ''Location'', lit ''51.50, -0.12'')"
  by (simp add: re_match_def char_defs)

lemma split_example: "split_comma_space (lit ''51.50, -0.12'') = [lit ''51.50'', lit ''-0.12'']"
  by (simp add: split_comma_space_def lit_def)

text \<open>
  C3, as stated, fails: after \<open>Location: 51.50, -0.12\<close> the stored location is the list of
  the two strings \<open>51.50\<close> and \<open>-0.12\<close>, not a pair of floats.
\<close>

theorem location_pair_of_floats_counterexample:
  "child_stdout_line_cb ascii_only (lit ''Location: 51.50, -0.12'') init
     = Returned (init\<lparr>priv_location := ListOfStr [lit ''51.50'', lit ''-0.12'']\<rparr>)
   \<and> priv_location
        (state_after (child_stdout_line_cb ascii_only (lit ''Location: 51.50, -0.12'') init))
      \<noteq> TupleOfFloats (5150 / 100) (- (12 / 100))"
  by (simp add: child_stdout_line_cb_def re_match_location child_key_change_cb_def
      change_location_def split_example) (simp add: lit_def)

text \<open>
  C3, amended. Decoding a \<open>Location\<close> value splits it at each \<open>, \<close> and stores the list of
  the component strings as the location, with no numeric conversion: the components joined
  by \<open>, \<close> are the value again. Decoding \<open>Location: 51.50, -0.12\<close> leaves the stored
  location equal to the list of the strings \<open>51.50\<close> and \<open>-0.12\<close>.
\<close>

theorem location_stored_as_split_strings:
  "priv_location (state_after (child_key_change_cb rt (lit ''Location'') val s))
     = ListOfStr (split_comma_space val)
   \<and> join_comma_space (split_comma_space val) = val
   \<and> child_stdout_line_cb rt (lit ''Location: 51.50, -0.12'') s
       = Returned (s\<lparr>priv_location := ListOfStr [lit ''51.50'', lit ''-0.12'']\<rparr>)"
proof (intro conjI)
  have k: "lit ''Location'' \<noteq> lit ''Status''" "lit ''Location'' \<noteq> lit ''Color temperature''"
    "lit ''Location'' \<noteq> lit ''Period''"
    by (simp_all add: lit_def)
  show "priv_location (state_after (child_key_change_cb rt (lit ''Location'') val s))
     = ListOfStr (split_comma_space val)"
    by (simp add: child_key_change_cb_def k change_location_def Let_def)
  show "join_comma_space (split_comma_space val) = val"
    by (simp add: split_comma_space_def join_split_from)
  show "child_stdout_line_cb rt (lit ''Location: 51.50, -0.12'') s
       = Returned (s\<lparr>priv_location := ListOfStr [lit ''51.50'', lit ''-0.12'']\<rparr>)"
    by (simp add: child_stdout_line_cb_def re_match_location child_key_change_cb_def
      change_location_def split_example) (simp add: lit_def)
qed

subsection \<open>Lines that raise\<close>





section \<open>What reading the child's output leaves alone\<close>

lemma child_stdout_line_cb_frame:
  "suspend_timer (state_after (child_stdout_line_cb rt line s)) = suspend_timer s
   \<and> timeouts (state_after (child_stdout_line_cb rt line s)) = timeouts s
   \<and> next_source (state_after (child_stdout_line_cb rt line s)) = next_source s
   \<and> clock (state_after (child_stdout_line_cb rt line s)) = clock s
   \<and> usr1_sent (state_after (child_stdout_line_cb rt line s)) = usr1_sent s
   \<and> input_buffer (state_after (child_stdout_line_cb rt line s)) = input_buffer s
   \<and> error_buffer (state_after (child_stdout_line_cb rt line s)) = error_buffer s
   \<and> errors (state_after (child_stdout_line_cb rt line s)) = errors s"
  by (simp add: child_stdout_line_cb_def child_key_change_cb_def change_status_eq
      change_temperature_def change_period_def change_location_def Let_def
      split: option.splits)

lemma child_stdout_line_cb_env:
  "child_stdout_line_cb rt line s = r \<Longrightarrow> env (state_after r) = env s"
  using child_stdout_line_cb_frame [of rt line s] by (auto simp: env_def)

lemma env_ib_assign [simp]: "env (ib_assign stdout b s) = env s"
  by (simp add: env_def ib_assign_def)

lemma until_absent:
  "c \<notin> set b \<Longrightarrow> dropWhile (\<lambda>x. x \<noteq> c) b = [] \<and> takeWhile (\<lambda>x. x \<noteq> c) b = b"
  by (induction b) auto

lemma until_first:
  "c \<notin> set first \<Longrightarrow>
   dropWhile (\<lambda>x. x \<noteq> c) (first @ c # rest) = c # rest
   \<and> takeWhile (\<lambda>x. x \<noteq> c) (first @ c # rest) = first"
  by (induction first) auto

lemma partition_str_none: "c \<notin> set b \<Longrightarrow> partition_str c b = (b, [], [])"
  by (simp add: partition_str_def until_absent)

lemma partition_str_some:
  "c \<notin> set first \<Longrightarrow> partition_str c (first @ c # rest) = (first, [c], rest)"
  by (simp add: partition_str_def until_first)

lemma line_loop_done: "10 \<notin> set (ib_buf stdout s) \<Longrightarrow> line_loop rt stdout s = Returned s"
  by (subst line_loop.simps) (simp add: partition_str_none)

lemma line_loop_stdout:
  "ib_buf True s = first @ 10 # rest \<Longrightarrow> 10 \<notin> set first \<Longrightarrow>
   line_loop rt True s =
     (case child_stdout_line_cb rt first (ib_assign True rest s) of
        Returned s' \<Rightarrow> line_loop rt True s'
      | Raised e s' \<Rightarrow> Raised e s')"
  by (subst line_loop.simps) (simp add: partition_str_some)

lemma line_loop_stderr:
  "ib_buf False s = first @ 10 # rest \<Longrightarrow> 10 \<notin> set first \<Longrightarrow>
   line_loop rt False s =
     line_loop rt False
       ((ib_assign False rest s)\<lparr>errors := errors (ib_assign False rest s) @ first @ [10]\<rparr>)"
  by (subst line_loop.simps) (simp add: partition_str_some)

lemma line_loop_cases [case_names no_line stdout_line stderr_line]:
  assumes "10 \<notin> set (ib_buf stdout s) \<Longrightarrow> P"
    and "\<And>first rest. stdout \<Longrightarrow> ib_buf True s = first @ 10 # rest \<Longrightarrow> 10 \<notin> set first \<Longrightarrow> P"
    and "\<And>first rest. \<not> stdout \<Longrightarrow> ib_buf False s = first @ 10 # rest \<Longrightarrow> 10 \<notin> set first \<Longrightarrow> P"
  shows P
proof (cases "10 \<in> set (ib_buf stdout s)")
  case False
  with assms(1) show P by simp
next
  case True
  then obtain first rest where "ib_buf stdout s = first @ 10 # rest" "10 \<notin> set first"
    using split_list_first [of 10 "ib_buf stdout s"] by blast
  with assms(2,3) show P by (cases stdout) auto
qed

lemma line_loop_env: "env (state_after (line_loop rt stdout s)) = env s"
proof (induction "length (ib_buf stdout s)" arbitrary: s rule: less_induct)
  case less
  show ?case
  proof (cases stdout s rule: line_loop_cases)
    case no_line
    then show ?thesis by (simp add: line_loop_done)
  next
    case (stdout_line first rest)
    show ?thesis
    proof (cases "child_stdout_line_cb rt first (ib_assign True rest s)")
      case (Returned s')
      from child_stdout_line_cb_frame [of rt first "ib_assign True rest s"] Returned
      have b: "input_buffer s' = rest" by (simp add: ib_assign_def)
      from child_stdout_line_cb_env [OF Returned] have e: "env s' = env s" by simp
      from stdout_line b have "length (ib_buf stdout s') < length (ib_buf stdout s)"
        by (simp add: ib_buf_def)
      from less [OF this] e stdout_line Returned show ?thesis
        by (simp add: line_loop_stdout [OF stdout_line(2,3)])
    next
      case (Raised e s')
      from child_stdout_line_cb_env [OF Raised] stdout_line Raised show ?thesis
        by (simp add: line_loop_stdout [OF stdout_line(2,3)])
    qed
  next
    case (stderr_line first rest)
    let ?s' = "(ib_assign False rest s)\<lparr>errors := errors (ib_assign False rest s) @ first @ [10]\<rparr>"
    from stderr_line have "length (ib_buf stdout ?s') < length (ib_buf stdout s)"
      by (simp add: ib_buf_def ib_assign_def)
    from less [OF this] stderr_line show ?thesis
      by (simp add: line_loop_stderr [OF stderr_line(2,3)] env_def ib_assign_def)
  qed
qed

lemma child_data_cb_env: "env (state_after (child_data_cb rt stdout chunk s)) = env s"
  by (simp add: child_data_cb_def line_loop_env split: option.splits)

section \<open>The suspend timer\<close>

lemma run_append: "run rt (es @ es') s = run rt es' (run rt es s)"
  by (induction es arbitrary: s) auto

lemma remove_suspend_timer_one_timer:
  "one_timer s \<Longrightarrow>
   timeouts (remove_suspend_timer s) = [] \<and> suspend_timer (remove_suspend_timer s) = None
   \<and> next_source (remove_suspend_timer s) = next_source s
   \<and> clock (remove_suspend_timer s) = clock s"
  by (cases "timeouts s")
    (auto simp: one_timer_def remove_suspend_timer_def source_remove_def split: option.splits)

lemma one_timer_env: "env s' = env s \<Longrightarrow> one_timer s \<Longrightarrow> one_timer s'"
  by (simp add: env_def one_timer_def)

lemma suspend_cb_timeouts:
  assumes "one_timer s"
  shows "timeouts (state_after (suspend_cb m s))
           = (if 0 \<le> m * 60 \<and> m * 60 < 2 ^ 32 then [(next_source s, clock s, nat (m * 60))]
              else [])"
    and "one_timer (state_after (suspend_cb m s))"
proof -
  let ?s1 = "if is_enabled s then child_toggle_status s else s"
  have o: "one_timer ?s1" using assms by (simp add: one_timer_def child_toggle_status_def)
  have n: "next_source ?s1 = next_source s" "clock ?s1 = clock s"
    by (simp_all add: child_toggle_status_def)
  note r = remove_suspend_timer_one_timer [OF o]
  show "timeouts (state_after (suspend_cb m s))
           = (if 0 \<le> m * 60 \<and> m * 60 < 2 ^ 32 then [(next_source s, clock s, nat (m * 60))]
              else [])"
    using r n by (simp add: suspend_cb_def Let_def timeout_add_seconds_def)
  show "one_timer (state_after (suspend_cb m s))"
    using r n by (simp add: suspend_cb_def Let_def timeout_add_seconds_def one_timer_def)
qed

lemma timeout_dispatch_fields:
  "suspend_timer (timeout_dispatch i s) = suspend_timer s
   \<and> next_source (timeout_dispatch i s) = next_source s
   \<and> clock (timeout_dispatch i s) = clock s
   \<and> (timeouts (timeout_dispatch i s) = timeouts s
      \<or> timeouts (timeout_dispatch i s) = filter (\<lambda>t. fst t \<noteq> i) (timeouts s))"
  by (simp add: timeout_dispatch_def source_remove_def reenable_cb_def child_toggle_status_def
      split: list.splits prod.splits)

lemma one_timer_filter:
  assumes "one_timer s" "suspend_timer s' = suspend_timer s" "next_source s' = next_source s"
    "timeouts s' = timeouts s \<or> timeouts s' = filter P (timeouts s)"
  shows "one_timer s'"
proof -
  from assms(1) have "length (filter P (timeouts s)) \<le> 1"
    unfolding one_timer_def by (meson le_trans length_filter_le)
  with assms show ?thesis unfolding one_timer_def by auto
qed

lemma step_one_timer: "one_timer s \<Longrightarrow> one_timer (step rt e s)"
proof (cases e)
  case (Suspend m)
  assume "one_timer s"
  then show ?thesis using Suspend by (simp add: suspend_cb_timeouts(2))
next
  case Toggle
  assume "one_timer s"
  from remove_suspend_timer_one_timer [OF this] show ?thesis using Toggle
    by (simp add: toggle_cb_def child_toggle_status_def one_timer_def)
next
  case ToggleItem
  assume "one_timer s"
  then have o: "one_timer (s\<lparr>toggle_item_active := \<not> toggle_item_active s\<rparr>)"
    by (simp add: one_timer_def)
  from remove_suspend_timer_one_timer [OF o] o show ?thesis using ToggleItem
    by (simp add: toggle_item_cb_def child_toggle_status_def one_timer_def)
next
  case (Timeout i)
  assume "one_timer s"
  then show ?thesis using Timeout timeout_dispatch_fields [of i s]
    by (auto intro: one_timer_filter)
next
  case (Elapse n)
  assume "one_timer s"
  then show ?thesis using Elapse by (simp add: one_timer_def)
next
  case (Data stdout chunk)
  assume "one_timer s"
  then show ?thesis using Data one_timer_env [OF child_data_cb_env] by simp
qed

lemma run_one_timer: "one_timer s \<Longrightarrow> one_timer (run rt es s)"
  by (induction es arbitrary: s) (auto simp: step_one_timer)

lemma one_timer_init: "one_timer init"
  by (simp add: one_timer_def init_def)


lemma next_source_step: "next_source s \<le> next_source (step rt e s)"
proof (cases e)
  case (Data stdout chunk)
  from child_data_cb_env [of rt stdout chunk s] show ?thesis using Data
    by (simp add: env_def)
qed (auto simp: suspend_cb_def Let_def timeout_add_seconds_def remove_suspend_timer_def
    source_remove_def child_toggle_status_def toggle_cb_def toggle_item_cb_def
    timeout_dispatch_fields split: option.splits)

lemma next_source_run: "next_source s \<le> next_source (run rt es s)"
proof (induction es arbitrary: s)
  case (Cons e es)
  from next_source_step [of s rt e] Cons [of "step rt e s"] show ?case by simp
qed simp

lemma step_ids_above: "ids_above k s \<Longrightarrow> ids_above k (step rt e s)"
proof (cases e)
  case (Data stdout chunk)
  assume "ids_above k s"
  with child_data_cb_env [of rt stdout chunk s] show ?thesis using Data
    by (simp add: env_def ids_above_def)
next
  case (Timeout i)
  assume "ids_above k s"
  with timeout_dispatch_fields [of i s] show ?thesis using Timeout
    by (auto simp: ids_above_def)
qed (auto simp: ids_above_def suspend_cb_def Let_def timeout_add_seconds_def
    remove_suspend_timer_def source_remove_def child_toggle_status_def toggle_cb_def
    toggle_item_cb_def split: option.splits)

lemma run_ids_above: "ids_above k s \<Longrightarrow> ids_above k (run rt es s)"
  by (induction es arbitrary: s) (auto simp: step_ids_above)

lemma timeout_dispatch_absent:
  "i \<notin> fst ` set (timeouts s) \<Longrightarrow> timeout_dispatch i s = s"
proof -
  assume "i \<notin> fst ` set (timeouts s)"
  then have "filter (\<lambda>t. fst t = i) (timeouts s) = []"
    by (auto simp: filter_empty_conv)
  then show ?thesis by (simp add: timeout_dispatch_def)
qed

text \<open>
  C5. Whatever the main loop has run since start-up, at most one timeout source is
  pending. After \<open>suspend_cb\<close> with 30 minutes exactly one is pending, of 30 * 60 seconds
  from that call; after a later \<open>suspend_cb\<close> with 60 minutes, whatever ran in between,
  exactly one is pending again, of 60 * 60 seconds from the second call, and the source
  of the first call is never pending afterwards: dispatching it does nothing, so it
  never fires.
\<close>

theorem at_most_one_pending_timer:
  "length (timeouts (run rt es init)) \<le> 1
   \<and> timeouts (run rt (es @ [Suspend 30]) init)
       = [(next_source (run rt es init), clock (run rt es init), 30 * 60)]
   \<and> timeouts (run rt (es @ [Suspend 30] @ mid @ [Suspend 60]) init)
       = [(next_source (run rt (es @ [Suspend 30] @ mid) init),
           clock (run rt (es @ [Suspend 30] @ mid) init), 60 * 60)]
   \<and> (\<forall>later.
         next_source (run rt es init)
           \<notin> fst ` set (timeouts (run rt (es @ [Suspend 30] @ mid @ [Suspend 60] @ later) init))
         \<and> timeout_dispatch (next_source (run rt es init))
             (run rt (es @ [Suspend 30] @ mid @ [Suspend 60] @ later) init)
           = run rt (es @ [Suspend 30] @ mid @ [Suspend 60] @ later) init)"
proof (intro conjI allI)
  let ?s = "run rt es init"
  let ?s1 = "step rt (Suspend 30) ?s"
  let ?sm = "run rt mid ?s1"
  let ?s2 = "step rt (Suspend 60) ?sm"
  have o: "one_timer ?s" by (simp add: run_one_timer one_timer_init)
  then show "length (timeouts ?s) \<le> 1" by (simp add: one_timer_def)
  show "timeouts (run rt (es @ [Suspend 30]) init) = [(next_source ?s, clock ?s, 30 * 60)]"
    using suspend_cb_timeouts(1) [OF o, of 30] by (simp add: run_append)
  have "one_timer ?s1" using o by (rule step_one_timer)
  then have om: "one_timer ?sm" by (rule run_one_timer)
  have sm: "run rt (es @ [Suspend 30] @ mid) init = ?sm" by (simp add: run_append)
  have t2: "timeouts ?s2 = [(next_source ?sm, clock ?sm, 60 * 60)]"
    using suspend_cb_timeouts(1) [OF om, of 60] by simp
  then show "timeouts (run rt (es @ [Suspend 30] @ mid @ [Suspend 60]) init)
       = [(next_source (run rt (es @ [Suspend 30] @ mid) init),
           clock (run rt (es @ [Suspend 30] @ mid) init), 60 * 60)]"
    by (simp add: run_append)
  have "next_source ?s1 = Suc (next_source ?s)"
    by (simp add: suspend_cb_def Let_def timeout_add_seconds_def remove_suspend_timer_def
        source_remove_def child_toggle_status_def split: option.splits)
  with next_source_run [of ?s1 rt mid] have m: "next_source ?s < next_source ?sm" by simp
  with next_source_step [of ?sm rt "Suspend 60"] t2 have a: "ids_above (next_source ?s) ?s2"
    by (simp add: ids_above_def)
  fix later
  have l: "run rt (es @ [Suspend 30] @ mid @ [Suspend 60] @ later) init = run rt later ?s2"
    by (simp add: run_append)
  from run_ids_above [OF a, of rt later]
  show n: "next_source ?s
      \<notin> fst ` set (timeouts (run rt (es @ [Suspend 30] @ mid @ [Suspend 60] @ later) init))"
    unfolding l by (auto simp: ids_above_def)
  show "timeout_dispatch (next_source ?s)
          (run rt (es @ [Suspend 30] @ mid @ [Suspend 60] @ later) init)
        = run rt (es @ [Suspend 30] @ mid @ [Suspend 60] @ later) init"
    using n by (rule timeout_dispatch_absent)
qed

text \<open>
  C6. \<open>suspend_cb\<close> called while the child is recorded as disabled, with a number of
  minutes whose seconds fit the interval argument of the timer, sends no signal and arms
  a timer of \<open>minutes * 60\<close> seconds, which \<open>suspend_timer\<close> then names. \<open>reenable_cb\<close> sends
  the signal when the child is recorded as disabled; when it is recorded as enabled,
  \<open>reenable_cb\<close> changes nothing, and the dispatch of a timeout at most destroys the
  source itself.
\<close>

theorem suspend_while_disabled_and_reenable_check:
  "(\<not> is_enabled s \<and> 0 \<le> m * 60 \<and> m * 60 < 2 ^ 32 \<longrightarrow>
      (\<exists>s'. suspend_cb m s = Returned s'
            \<and> usr1_sent s' = usr1_sent s
            \<and> suspend_timer s' = Some (next_source s)
            \<and> (next_source s, clock s, nat (m * 60)) \<in> set (timeouts s')))
   \<and> (\<not> is_enabled s \<longrightarrow> reenable_cb s = s\<lparr>usr1_sent := Suc (usr1_sent s)\<rparr>)
   \<and> (is_enabled s \<longrightarrow>
        reenable_cb s = s
        \<and> (timeout_dispatch i s = s \<or> timeout_dispatch i s = source_remove i s))"
proof (intro conjI impI)
  assume "\<not> is_enabled s \<and> 0 \<le> m * 60 \<and> m * 60 < 2 ^ 32"
  then show "\<exists>s'. suspend_cb m s = Returned s'
            \<and> usr1_sent s' = usr1_sent s
            \<and> suspend_timer s' = Some (next_source s)
            \<and> (next_source s, clock s, nat (m * 60)) \<in> set (timeouts s')"
    by (simp add: suspend_cb_def Let_def timeout_add_seconds_def remove_suspend_timer_def
        source_remove_def split: option.splits)
next
  assume "\<not> is_enabled s"
  then show "reenable_cb s = s\<lparr>usr1_sent := Suc (usr1_sent s)\<rparr>"
    by (simp add: reenable_cb_def child_toggle_status_def)
next
  assume e: "is_enabled s"
  then show "reenable_cb s = s" by (simp add: reenable_cb_def)
  with e show "timeout_dispatch i s = s \<or> timeout_dispatch i s = source_remove i s"
    by (simp add: timeout_dispatch_def split: list.splits)
qed

theorem suspend_while_disabled_and_reenable_check_witness:
  "\<not> is_enabled init
   \<and> suspend_cb 30 init
       = Returned (init\<lparr>suspend_timer := Some 4, timeouts := [(4, 0, 1800)], next_source := 5\<rparr>)
   \<and> reenable_cb init = init\<lparr>usr1_sent := 1\<rparr>
   \<and> is_enabled (init\<lparr>priv_status := True\<rparr>)
   \<and> reenable_cb (init\<lparr>priv_status := True\<rparr>) = init\<lparr>priv_status := True\<rparr>"
  using suspend_while_disabled_and_reenable_check [of init 30 4]
    suspend_while_disabled_and_reenable_check [of "init\<lparr>priv_status := True\<rparr>" 30 4]
  by (simp add: is_enabled_def init_def suspend_cb_def Let_def timeout_add_seconds_def
      remove_suspend_timer_def)

text \<open>
  C7 says that the stored timer reference is cleared once the timer has fired, as it is by
  \<open>remove_suspend_timer\<close>. \<open>reenable_cb\<close> does not assign \<open>suspend_timer\<close>: after a suspend
  request of 30 minutes, 1800 seconds and the dispatch of source 4, no source is pending
  and the field still names source 4.
\<close>

theorem fired_timer_reference_not_cleared:
  "suspend_timer (run rt [Suspend 30, Elapse 1800, Timeout 4] init) = Some 4
   \<and> timeouts (run rt [Suspend 30, Elapse 1800, Timeout 4] init) = []
   \<and> usr1_sent (run rt [Suspend 30, Elapse 1800, Timeout 4] init) = 1
   \<and> suspend_timer (remove_suspend_timer (run rt [Suspend 30] init)) = None
   \<and> suspend_timer (reenable_cb s) = suspend_timer s
   \<and> suspend_timer (timeout_dispatch i s) = suspend_timer s"
  by (simp add: timeout_dispatch_fields)
    (simp add: init_def suspend_cb_def Let_def timeout_add_seconds_def
      remove_suspend_timer_def is_enabled_def timeout_dispatch_def source_remove_def
      reenable_cb_def child_toggle_status_def)

section \<open>Toggling\<close>

lemma line_loop_stderr_frame:
  "\<exists>b e. line_loop rt False s = Returned (s\<lparr>error_buffer := b, errors := e\<rparr>)"
proof (induction "length (ib_buf False s)" arbitrary: s rule: less_induct)
  case less
  show ?case
  proof (cases False s rule: line_loop_cases)
    case no_line
    then have "line_loop rt False s = Returned (s\<lparr>error_buffer := error_buffer s, errors := errors s\<rparr>)"
      by (simp add: line_loop_done)
    then show ?thesis by blast
  next
    case (stdout_line first rest)
    then show ?thesis by simp
  next
    case (stderr_line first rest)
    let ?s' = "(ib_assign False rest s)\<lparr>errors := errors (ib_assign False rest s) @ first @ [10]\<rparr>"
    from stderr_line have "length (ib_buf False ?s') < length (ib_buf False s)"
      by (simp add: ib_buf_def ib_assign_def)
    from less [OF this] obtain b e
      where "line_loop rt False ?s' = Returned (?s'\<lparr>error_buffer := b, errors := e\<rparr>)"
      by blast
    then have "line_loop rt False s = Returned (s\<lparr>error_buffer := b, errors := e\<rparr>)"
      by (simp add: line_loop_stderr [OF stderr_line(2,3)] ib_assign_def)
    then show ?thesis by blast
  qed
qed

lemma child_data_cb_stderr_status:
  "priv_status (state_after (child_data_cb rt False chunk s)) = priv_status s"
proof (cases "decode_utf8 chunk")
  case None
  then show ?thesis by (simp add: child_data_cb_def)
next
  case (Some t)
  obtain b e where "line_loop rt False (ib_assign False (ib_buf False s @ t) s)
      = Returned ((ib_assign False (ib_buf False s @ t) s)\<lparr>error_buffer := b, errors := e\<rparr>)"
    using line_loop_stderr_frame by blast
  with Some show ?thesis by (simp add: child_data_cb_def ib_assign_def)
qed

lemma remove_suspend_timer_worker:
  "priv_status (remove_suspend_timer s) = priv_status s
   \<and> priv_temperature (remove_suspend_timer s) = priv_temperature s
   \<and> priv_period (remove_suspend_timer s) = priv_period s
   \<and> priv_location (remove_suspend_timer s) = priv_location s
   \<and> usr1_sent (remove_suspend_timer s) = usr1_sent s
   \<and> suspend_timer (remove_suspend_timer s) = None"
  by (simp add: remove_suspend_timer_def source_remove_def split: option.splits)

lemma step_status:
  "priv_status (step rt e s) \<noteq> priv_status s \<Longrightarrow> \<exists>chunk. e = Data True chunk"
proof (cases e)
  case (Data stdout chunk)
  assume "priv_status (step rt e s) \<noteq> priv_status s"
  with Data child_data_cb_stderr_status [of rt chunk s] show ?thesis
    by (cases stdout) auto
next
  case (Timeout i)
  assume "priv_status (step rt e s) \<noteq> priv_status s"
  with Timeout show ?thesis
    by (simp add: timeout_dispatch_def source_remove_def reenable_cb_def
        child_toggle_status_def split: list.splits prod.splits if_splits)
qed (auto simp: suspend_cb_def Let_def timeout_add_seconds_def remove_suspend_timer_worker
    child_toggle_status_def toggle_cb_def toggle_item_cb_def split: if_splits)

text \<open>
  C8. \<open>toggle_cb\<close> removes the suspend timer (in every state the main loop can reach, no
  timeout source is pending afterwards) and sends the signal; called twice, it has sent
  the signal twice and the enabled flag, the temperature, the period and the location
  are what they were. Of all that the main loop can run, only data on the child's
  standard output changes the enabled flag, and a decoded line changes it only when its
  key is \<open>Status\<close>.
\<close>

theorem toggle_is_a_request:
  "usr1_sent (toggle_cb (toggle_cb s)) = usr1_sent s + 2
   \<and> priv_status (toggle_cb (toggle_cb s)) = priv_status s
   \<and> priv_temperature (toggle_cb (toggle_cb s)) = priv_temperature s
   \<and> priv_period (toggle_cb (toggle_cb s)) = priv_period s
   \<and> priv_location (toggle_cb (toggle_cb s)) = priv_location s
   \<and> suspend_timer (toggle_cb s) = None
   \<and> timeouts (toggle_cb (run rt es init)) = []
   \<and> (priv_status (step rt e s) \<noteq> priv_status s \<longrightarrow> (\<exists>chunk. e = Data True chunk))
   \<and> (priv_status (state_after (child_stdout_line_cb rt line s)) \<noteq> priv_status s
        \<longrightarrow> (\<exists>v. re_match rt line = Some (lit ''Status'', v)))"
proof (intro conjI impI)
  show "usr1_sent (toggle_cb (toggle_cb s)) = usr1_sent s + 2"
    by (simp add: toggle_cb_def child_toggle_status_def remove_suspend_timer_worker)
  show "priv_status (toggle_cb (toggle_cb s)) = priv_status s"
    by (simp add: toggle_cb_def child_toggle_status_def remove_suspend_timer_worker)
  show "priv_temperature (toggle_cb (toggle_cb s)) = priv_temperature s"
    by (simp add: toggle_cb_def child_toggle_status_def remove_suspend_timer_worker)
  show "priv_period (toggle_cb (toggle_cb s)) = priv_period s"
    by (simp add: toggle_cb_def child_toggle_status_def remove_suspend_timer_worker)
  show "priv_location (toggle_cb (toggle_cb s)) = priv_location s"
    by (simp add: toggle_cb_def child_toggle_status_def remove_suspend_timer_worker)
  show "suspend_timer (toggle_cb s) = None"
    by (simp add: toggle_cb_def child_toggle_status_def remove_suspend_timer_worker)
  have "one_timer (run rt es init)" by (simp add: run_one_timer one_timer_init)
  from remove_suspend_timer_one_timer [OF this]
  show "timeouts (toggle_cb (run rt es init)) = []"
    by (simp add: toggle_cb_def child_toggle_status_def)
next
  assume "priv_status (step rt e s) \<noteq> priv_status s"
  then show "\<exists>chunk. e = Data True chunk" by (rule step_status)
next
  assume a: "priv_status (state_after (child_stdout_line_cb rt line s)) \<noteq> priv_status s"
  then obtain key val where m: "re_match rt line = Some (key, val)"
    and c: "priv_status (state_after (child_key_change_cb rt key val s)) \<noteq> priv_status s"
    by (auto simp: child_stdout_line_cb_def split: if_splits option.splits)
  from c have "key = lit ''Status''"
    by (auto simp: child_key_change_cb_def change_temperature_def change_period_def
        change_location_def Let_def split: if_splits option.splits)
  with m show "\<exists>v. re_match rt line = Some (lit ''Status'', v)" by simp
qed

theorem toggle_is_a_request_witness:
  "priv_status (step ascii_only (Data True (ascii_bytes ''Status: Enabled'' @ [10])) init)
     \<noteq> priv_status init
   \<and> priv_status (state_after (child_stdout_line_cb ascii_only (lit ''Status: Enabled'') init))
     \<noteq> priv_status init
   \<and> re_match ascii_only (lit ''Status: Enabled'') = Some (lit ''Status'', lit ''Enabled'')
   \<and> usr1_sent (toggle_cb (toggle_cb init)) = 2
   \<and> priv_status (toggle_cb (toggle_cb init)) = priv_status init"
proof -
  have l: "child_stdout_line_cb ascii_only (lit ''Status: Enabled'') init
      = Returned (init\<lparr>priv_status := True, toggle_item_active := True\<rparr>)"
    by (simp add: child_stdout_line_cb_def re_match_def char_defs child_key_change_cb_def
        change_status_eq)
  have d: "decode_utf8 (ascii_bytes ''Status: Enabled'' @ [10]) = Some (lit ''Status: Enabled'' @ [10])"
    by (simp add: decode_utf8_def ascii_bytes_def lit_def utf8.simps utf8_first_def)
  have b: "ib_buf True (ib_assign True (lit ''Status: Enabled'' @ [10]) init)
      = lit ''Status: Enabled'' @ 10 # []"
    by (simp add: ib_buf_def ib_assign_def)
  have n: "10 \<notin> set (lit ''Status: Enabled'')" by (simp add: lit_def)
  have a: "ib_assign True []
        (ib_assign True (lit ''Status: Enabled'' @ [10]) init) = init"
    by (simp add: ib_assign_def init_def)
  have "child_data_cb ascii_only True (ascii_bytes ''Status: Enabled'' @ [10]) init
      = Returned (init\<lparr>priv_status := True, toggle_item_active := True\<rparr>)"
    by (simp add: child_data_cb_def d ib_buf_def [of True init] init_def [THEN arg_cong, of input_buffer]
        line_loop_stdout [OF b n] a l)
      (simp add: line_loop_done ib_buf_def init_def)
  then have s: "priv_status (step ascii_only (Data True (ascii_bytes ''Status: Enabled'' @ [10])) init)
     \<noteq> priv_status init"
    by (simp add: init_def)
  from l have c: "priv_status (state_after (child_stdout_line_cb ascii_only (lit ''Status: Enabled'') init))
     \<noteq> priv_status init"
    by (simp add: init_def)
  show ?thesis
    using s c toggle_is_a_request [of init ascii_only "[]"
        "Data True (ascii_bytes ''Status: Enabled'' @ [10])" "lit ''Status: Enabled''"]
    by (simp add: re_match_def char_defs init_def)
qed

section \<open>The child exits\<close>

lemma decode_ascii_error: "decode_utf8 (ascii_bytes ''error'' @ [10]) = Some (lit ''error'' @ [10])"
  by (simp add: decode_utf8_def ascii_bytes_def lit_def utf8.simps utf8_first_def)

lemma decode_ascii_fatal: "decode_utf8 (ascii_bytes ''fatal '') = Some (lit ''fatal '')"
  by (simp add: decode_utf8_def ascii_bytes_def lit_def utf8.simps utf8_first_def)

lemma decode_ascii_fatal_error:
  "decode_utf8 (ascii_bytes ''fatal error'' @ [10]) = Some (lit ''fatal error'' @ [10])"
  by (simp add: decode_utf8_def ascii_bytes_def lit_def utf8.simps utf8_first_def)

lemma drain_empty: "drain to_errors [] s = Returned s"
  by (simp add: drain.simps [of to_errors "[]"] decode_utf8_Nil)

lemma drain_short:
  "length pending \<le> 256 \<Longrightarrow> decode_utf8 pending = Some buf \<Longrightarrow>
   drain to_errors pending s
     = Returned (if to_errors \<and> buf \<noteq> [] then s\<lparr>errors := errors s @ buf\<rparr> else s)"
  by (simp add: drain.simps [of to_errors pending] drain_empty)

lemma fatal_prefix_buffered:
  "child_data_cb rt False (ascii_bytes ''fatal '') init
     = Returned (init\<lparr>error_buffer := lit ''fatal ''\<rparr>)"
proof -
  have "10 \<notin> set (ib_buf False (init\<lparr>error_buffer := lit ''fatal ''\<rparr>))"
    by (simp add: ib_buf_def lit_def)
  then show ?thesis
    by (simp add: child_data_cb_def decode_ascii_fatal ib_assign_def ib_buf_def [of False init]
        init_def [THEN arg_cong, of error_buffer] line_loop_done)
qed

text \<open>
  C9 says that after the child wrote \<open>fatal error\<close> and a line feed to its standard error
  and exited with code 1, the failure report holds exactly that text. When
  \<open>child_data_cb\<close> has read the first six bytes before the exit and the rest is drained by
  \<open>child_cb\<close>, the report holds \<open>error\<close> and the line feed only: the drained text goes
  straight to \<open>errors\<close>, and the beginning of the line stays in \<open>error_buffer\<close>, which
  \<open>child_cb\<close> never reads.
\<close>

theorem partial_stderr_line_lost_at_exit:
  "child_cb (Exited 1) [] (ascii_bytes ''error'' @ [10])
     (state_after (child_data_cb rt False (ascii_bytes ''fatal '') init))
   = Raised (SystemExit (- 1))
       (init\<lparr>error_buffer := lit ''fatal '', errors := lit ''error'' @ [10],
             error_dialog :=
               Some (lit ''<b>Failed to run Redshift</b>'' @ [10] @ lit ''<i>''
                     @ lit ''error'' @ [10] @ lit ''</i>'')\<rparr>)
   \<and> lit ''error'' @ [10] \<noteq> lit ''fatal error'' @ [10]"
proof
  have l: "length (ascii_bytes ''error'' @ [10]) \<le> 256" by (simp add: ascii_bytes_def)
  show "child_cb (Exited 1) [] (ascii_bytes ''error'' @ [10])
     (state_after (child_data_cb rt False (ascii_bytes ''fatal '') init))
   = Raised (SystemExit (- 1))
       (init\<lparr>error_buffer := lit ''fatal '', errors := lit ''error'' @ [10],
             error_dialog :=
               Some (lit ''<b>Failed to run Redshift</b>'' @ [10] @ lit ''<i>''
                     @ lit ''error'' @ [10] @ lit ''</i>'')\<rparr>)"
    by (simp add: fatal_prefix_buffered child_cb_def drain_empty
        drain_short [OF l decode_ascii_error] spawn_check_exit_status_def)
      (simp add: init_def)
  show "lit ''error'' @ [10] \<noteq> lit ''fatal error'' @ [10]" by (simp add: lit_def)
qed

text \<open>
  The rest of C9 holds: exit code 0 ends the main loop with no dialog, and a line that
  reached the parent whole, through \<open>child_data_cb\<close> or through the drain, is reported
  whole before \<open>SystemExit(-1)\<close>.
\<close>

lemma exit_report_when_delivered_whole:
  "child_cb (Exited 0) [] [] s = Returned (s\<lparr>main_quit := True\<rparr>)"
  "child_cb (Exited 1) [] (ascii_bytes ''fatal error'' @ [10]) init
     = Raised (SystemExit (- 1))
         (init\<lparr>errors := lit ''fatal error'' @ [10],
               error_dialog :=
                 Some (lit ''<b>Failed to run Redshift</b>'' @ [10] @ lit ''<i>''
                       @ lit ''fatal error'' @ [10] @ lit ''</i>'')\<rparr>)"
  "child_cb (Exited 1) [] []
     (state_after (child_data_cb rt False (ascii_bytes ''fatal error'' @ [10]) init))
     = Raised (SystemExit (- 1))
         (init\<lparr>errors := lit ''fatal error'' @ [10],
               error_dialog :=
                 Some (lit ''<b>Failed to run Redshift</b>'' @ [10] @ lit ''<i>''
                       @ lit ''fatal error'' @ [10] @ lit ''</i>'')\<rparr>)"
proof -
  show "child_cb (Exited 0) [] [] s = Returned (s\<lparr>main_quit := True\<rparr>)"
    by (simp add: child_cb_def drain_empty spawn_check_exit_status_def)
  have l: "length (ascii_bytes ''fatal error'' @ [10]) \<le> 256" by (simp add: ascii_bytes_def)
  show "child_cb (Exited 1) [] (ascii_bytes ''fatal error'' @ [10]) init
     = Raised (SystemExit (- 1))
         (init\<lparr>errors := lit ''fatal error'' @ [10],
               error_dialog :=
                 Some (lit ''<b>Failed to run Redshift</b>'' @ [10] @ lit ''<i>''
                       @ lit ''fatal error'' @ [10] @ lit ''</i>'')\<rparr>)"
    by (simp add: child_cb_def drain_empty drain_short [OF l decode_ascii_fatal_error]
        spawn_check_exit_status_def)
      (simp add: init_def)
  have b: "ib_buf False (ib_assign False (lit ''fatal error'' @ [10]) init)
      = lit ''fatal error'' @ 10 # []"
    by (simp add: ib_buf_def ib_assign_def)
  have n: "10 \<notin> set (lit ''fatal error'')" by (simp add: lit_def)
  have "child_data_cb rt False (ascii_bytes ''fatal error'' @ [10]) init
      = Returned (init\<lparr>errors := lit ''fatal error'' @ [10]\<rparr>)"
    by (simp add: child_data_cb_def decode_ascii_fatal_error ib_buf_def [of False init]
        init_def [THEN arg_cong, of error_buffer] line_loop_stderr [OF b n])
      (simp add: line_loop_done ib_buf_def ib_assign_def init_def)
  then show "child_cb (Exited 1) [] []
     (state_after (child_data_cb rt False (ascii_bytes ''fatal error'' @ [10]) init))
     = Raised (SystemExit (- 1))
         (init\<lparr>errors := lit ''fatal error'' @ [10],
               error_dialog :=
                 Some (lit ''<b>Failed to run Redshift</b>'' @ [10] @ lit ''<i>''
                       @ lit ''fatal error'' @ [10] @ lit ''</i>'')\<rparr>)"
    by (simp add: child_cb_def drain_empty spawn_check_exit_status_def)
qed

section \<open>Splitting the streams into lines\<close>

subsection \<open>Decoding a concatenation\<close>

lemma utf8_Nil: "utf8 [] = Some []"
  by (simp add: utf8.simps)

lemma utf8_first_append:
  "utf8_first a = Some (c, r) \<Longrightarrow> utf8_first (a @ b) = Some (c, r @ b)"
proof -
  assume f: "utf8_first a = Some (c, r)"
  then obtain b0 r0 where a: "a = b0 # r0"
    by (cases a) (auto simp: utf8_first_def)
  consider (one) "b0 < 128"
    | (two) "\<not> b0 < 128" "194 \<le> b0 \<and> b0 < 224"
    | (three) "\<not> b0 < 128" "\<not> (194 \<le> b0 \<and> b0 < 224)" "224 \<le> b0 \<and> b0 < 240"
    | (four) "\<not> b0 < 128" "\<not> (194 \<le> b0 \<and> b0 < 224)" "\<not> (224 \<le> b0 \<and> b0 < 240)"
        "240 \<le> b0 \<and> b0 < 245"
    | (none) "\<not> b0 < 128" "\<not> (194 \<le> b0 \<and> b0 < 224)" "\<not> (224 \<le> b0 \<and> b0 < 240)"
        "\<not> (240 \<le> b0 \<and> b0 < 245)"
    by blast
  then show ?thesis
  proof cases
    case one
    with f a show ?thesis by (simp add: utf8_first_def)
  next
    case two
    with f a obtain b1 r1 where "r0 = b1 # r1"
      by (cases r0) (simp_all add: utf8_first_def)
    with two f a show ?thesis by (simp add: utf8_first_def split: if_splits)
  next
    case three
    with f a obtain b1 b2 r2 where "r0 = b1 # b2 # r2"
      by (cases r0; cases "tl r0") (simp_all add: utf8_first_def)
    with three f a show ?thesis by (simp add: utf8_first_def split: if_splits)
  next
    case four
    with f a obtain b1 b2 b3 r3 where "r0 = b1 # b2 # b3 # r3"
      by (cases r0; cases "tl r0"; cases "tl (tl r0)") (simp_all add: utf8_first_def)
    with four f a show ?thesis by (simp add: utf8_first_def split: if_splits)
  next
    case none
    with f a show ?thesis by (simp add: utf8_first_def)
  qed
qed

lemma utf8_append:
  "utf8 a = Some x \<Longrightarrow> utf8 b = Some y \<Longrightarrow> utf8 (a @ b) = Some (x @ y)"
proof (induction a arbitrary: x rule: utf8.induct)
  case (1 bs)
  show ?case
  proof (cases "bs = []")
    case True
    with 1(2,3) show ?thesis by (simp add: utf8_Nil)
  next
    case False
    with 1(2) obtain c r x' where f: "utf8_first bs = Some (c, r)" and r: "utf8 r = Some x'"
      and x: "x = c # x'"
      by (subst (asm) utf8.simps) (auto split: option.splits)
    from 1(1) [OF False f refl r 1(3)] have "utf8 (r @ b) = Some (x' @ y)" .
    with False utf8_first_append [OF f, of b] x show ?thesis
      by (subst utf8.simps) simp
  qed
qed

lemma decode_utf8_append:
  "decode_utf8 a = Some x \<Longrightarrow> decode_utf8 b = Some y \<Longrightarrow> decode_utf8 (a @ b) = Some (x @ y)"
  by (simp add: decode_utf8_def utf8_append)

subsection \<open>More text behind the buffer\<close>

lemma child_stdout_line_cb_buffer:
  "child_stdout_line_cb rt line (s\<lparr>input_buffer := b\<rparr>)
     = map_result (input_buffer_update (\<lambda>_. b)) (child_stdout_line_cb rt line s)"
  by (simp add: child_stdout_line_cb_def child_key_change_cb_def change_status_eq
      change_temperature_def change_period_def change_location_def Let_def
      split: option.splits)

lemma line_loop_append:
  "line_loop rt stdout (ib_assign stdout (ib_buf stdout s @ t) s) =
     (case line_loop rt stdout s of
        Returned s1 \<Rightarrow> line_loop rt stdout (ib_assign stdout (ib_buf stdout s1 @ t) s1)
      | Raised e s1 \<Rightarrow> Raised e (ib_assign stdout (ib_buf stdout s1 @ t) s1))"
proof (induction "length (ib_buf stdout s)" arbitrary: s rule: less_induct)
  case less
  show ?case
  proof (cases stdout s rule: line_loop_cases)
    case no_line
    then show ?thesis by (simp add: line_loop_done)
  next
    case (stdout_line first rest)
    let ?h = "child_stdout_line_cb rt first (ib_assign True rest s)"
    have b: "ib_buf True (ib_assign True (ib_buf True s @ t) s) = first @ 10 # (rest @ t)"
      using stdout_line by (simp add: ib_buf_def ib_assign_def)
    have a: "ib_assign True (rest @ t) (ib_assign True (ib_buf True s @ t) s)
        = (ib_assign True rest s)\<lparr>input_buffer := rest @ t\<rparr>"
      by (simp add: ib_assign_def)
    have l: "line_loop rt True (ib_assign True (ib_buf True s @ t) s)
        = (case map_result (input_buffer_update (\<lambda>_. rest @ t)) ?h of
             Returned s' \<Rightarrow> line_loop rt True s'
           | Raised e s' \<Rightarrow> Raised e s')"
      by (simp add: line_loop_stdout [OF b stdout_line(3)] a child_stdout_line_cb_buffer)
    from child_stdout_line_cb_frame [of rt first "ib_assign True rest s"]
    have r: "input_buffer (state_after ?h) = rest" by (simp add: ib_assign_def)
    show ?thesis
    proof (cases ?h)
      case (Returned s')
      with r have r': "input_buffer s' = rest" by simp
      with stdout_line have "length (ib_buf stdout s') < length (ib_buf stdout s)"
        by (simp add: ib_buf_def)
      from less [OF this] stdout_line(1) r' Returned l show ?thesis
        by (simp add: line_loop_stdout [OF stdout_line(2,3)] ib_buf_def ib_assign_def)
    next
      case (Raised e s')
      with r have "input_buffer s' = rest" by simp
      with stdout_line(1) Raised l show ?thesis
        by (simp add: line_loop_stdout [OF stdout_line(2,3)] ib_buf_def ib_assign_def)
    qed
  next
    case (stderr_line first rest)
    let ?s' = "(ib_assign False rest s)\<lparr>errors := errors (ib_assign False rest s) @ first @ [10]\<rparr>"
    have b: "ib_buf False (ib_assign False (ib_buf False s @ t) s) = first @ 10 # (rest @ t)"
      using stderr_line by (simp add: ib_buf_def ib_assign_def)
    have a: "(ib_assign False (rest @ t) (ib_assign False (ib_buf False s @ t) s))
          \<lparr>errors := errors (ib_assign False (rest @ t) (ib_assign False (ib_buf False s @ t) s))
             @ first @ [10]\<rparr>
        = ib_assign False (ib_buf False ?s' @ t) ?s'"
      by (simp add: ib_assign_def ib_buf_def)
    from stderr_line have "length (ib_buf stdout ?s') < length (ib_buf stdout s)"
      by (simp add: ib_buf_def ib_assign_def)
    from less [OF this] stderr_line(1) show ?thesis
      by (simp add: line_loop_stderr [OF stderr_line(2,3)] line_loop_stderr [OF b stderr_line(3)] a)
  qed
qed

lemma line_loop_returned_no_line:
  "line_loop rt stdout s = Returned s' \<Longrightarrow> 10 \<notin> set (ib_buf stdout s')"
proof (induction "length (ib_buf stdout s)" arbitrary: s rule: less_induct)
  case less
  show ?case
  proof (cases stdout s rule: line_loop_cases)
    case no_line
    with less(2) show ?thesis by (simp add: line_loop_done)
  next
    case (stdout_line first rest)
    let ?h = "child_stdout_line_cb rt first (ib_assign True rest s)"
    from less(2) stdout_line obtain s1 where h: "?h = Returned s1"
      and l: "line_loop rt stdout s1 = Returned s'"
      by (auto simp: line_loop_stdout [OF stdout_line(2,3)] split: result.splits)
    from child_stdout_line_cb_frame [of rt first "ib_assign True rest s"] h
    have "input_buffer s1 = rest" by (simp add: ib_assign_def)
    with stdout_line have "length (ib_buf stdout s1) < length (ib_buf stdout s)"
      by (simp add: ib_buf_def)
    from less(1) [OF this l] show ?thesis .
  next
    case (stderr_line first rest)
    let ?s' = "(ib_assign False rest s)\<lparr>errors := errors (ib_assign False rest s) @ first @ [10]\<rparr>"
    from stderr_line have "length (ib_buf stdout ?s') < length (ib_buf stdout s)"
      by (simp add: ib_buf_def ib_assign_def)
    moreover from less(2) stderr_line have "line_loop rt stdout ?s' = Returned s'"
      by (simp add: line_loop_stderr [OF stderr_line(2,3)])
    ultimately show ?thesis by (rule less(1))
  qed
qed


lemma line_loop_returned_suffix:
  "line_loop rt stdout s = Returned s' \<Longrightarrow>
   \<exists>d. ib_buf stdout s = d @ ib_buf stdout s' \<and> (d = [] \<or> last d = 10)"
proof (induction "length (ib_buf stdout s)" arbitrary: s rule: less_induct)
  case less
  show ?case
  proof (cases stdout s rule: line_loop_cases)
    case no_line
    with less(2) show ?thesis by (simp add: line_loop_done)
  next
    case (stdout_line first rest)
    let ?h = "child_stdout_line_cb rt first (ib_assign True rest s)"
    from less(2) stdout_line obtain s1 where h: "?h = Returned s1"
      and l: "line_loop rt stdout s1 = Returned s'"
      by (auto simp: line_loop_stdout [OF stdout_line(2,3)] split: result.splits)
    from child_stdout_line_cb_frame [of rt first "ib_assign True rest s"] h
    have r: "input_buffer s1 = rest" by (simp add: ib_assign_def)
    with stdout_line have "length (ib_buf stdout s1) < length (ib_buf stdout s)"
      by (simp add: ib_buf_def)
    from less(1) [OF this l] obtain d
      where "ib_buf stdout s1 = d @ ib_buf stdout s'" "d = [] \<or> last d = 10"
      by blast
    with r stdout_line
    have "ib_buf stdout s = (first @ 10 # d) @ ib_buf stdout s' \<and> last (first @ 10 # d) = 10"
      by (auto simp: ib_buf_def)
    then show ?thesis by blast
  next
    case (stderr_line first rest)
    let ?s' = "(ib_assign False rest s)\<lparr>errors := errors (ib_assign False rest s) @ first @ [10]\<rparr>"
    from stderr_line have "length (ib_buf stdout ?s') < length (ib_buf stdout s)"
      by (simp add: ib_buf_def ib_assign_def)
    moreover from less(2) stderr_line have "line_loop rt stdout ?s' = Returned s'"
      by (simp add: line_loop_stderr [OF stderr_line(2,3)])
    ultimately obtain d
      where "ib_buf stdout ?s' = d @ ib_buf stdout s'" "d = [] \<or> last d = 10"
      using less(1) by blast
    with stderr_line
    have "ib_buf stdout s = (first @ 10 # d) @ ib_buf stdout s' \<and> last (first @ 10 # d) = 10"
      by (auto simp: ib_buf_def ib_assign_def)
    then show ?thesis by blast
  qed
qed

lemma decode_utf8_concat:
  "\<forall>c \<in> set cs. decode_utf8 c \<noteq> None \<Longrightarrow> \<exists>t. decode_utf8 (concat cs) = Some t"
proof (induction cs)
  case Nil
  show ?case by (simp add: decode_utf8_Nil)
next
  case (Cons c cs)
  then obtain x y where "decode_utf8 c = Some x" "decode_utf8 (concat cs) = Some y"
    by auto
  then show ?case by (simp add: decode_utf8_append)
qed

lemma ib_assign_same: "ib_assign stdout (ib_buf stdout s) s = s"
  by (simp add: ib_assign_def ib_buf_def)

lemma ib_assign_twice:
  "ib_assign stdout (ib_buf stdout (ib_assign stdout b s) @ t) (ib_assign stdout b s)
     = ib_assign stdout (b @ t) s"
  by (simp add: ib_assign_def ib_buf_def)

lemma feed_chunks_whole:
  assumes "\<forall>c \<in> set cs. decode_utf8 c \<noteq> None" and "decode_utf8 c \<noteq> None"
  shows "case feed_chunks rt stdout (c # cs) s of
           Returned s' \<Rightarrow> child_data_cb rt stdout (concat (c # cs)) s = Returned s'
         | Raised e s' \<Rightarrow>
             \<exists>t. decode_utf8 (concat (unfed_chunks rt stdout (c # cs) s)) = Some t
                 \<and> child_data_cb rt stdout (concat (c # cs)) s
                     = Raised e (ib_assign stdout (ib_buf stdout s' @ t) s')"
  using assms
proof (induction cs arbitrary: c s)
  case Nil
  show ?case
  proof (cases "child_data_cb rt stdout c s")
    case (Returned s')
    then show ?thesis by simp
  next
    case (Raised e s')
    have "decode_utf8 (concat []) = Some []
        \<and> Raised e s' = Raised e (ib_assign stdout (ib_buf stdout s' @ []) s')"
      by (simp add: ib_assign_same decode_utf8_Nil)
    then have "\<exists>t. decode_utf8 (concat []) = Some t
        \<and> Raised e s' = Raised e (ib_assign stdout (ib_buf stdout s' @ t) s')"
      by (rule exI)
    with Raised show ?thesis by simp
  qed
next
  case (Cons c2 cs)
  from Cons(3) obtain t where t: "decode_utf8 c = Some t" by auto
  from Cons(2) obtain u where u: "decode_utf8 (concat (c2 # cs)) = Some u"
    using decode_utf8_concat [of "c2 # cs"] by auto
  from t u have tu: "decode_utf8 (concat (c # c2 # cs)) = Some (t @ u)"
    using decode_utf8_append [OF t u] by simp
  let ?s0 = "ib_assign stdout (ib_buf stdout s @ t) s"
  have w: "child_data_cb rt stdout (concat (c # c2 # cs)) s =
      (case line_loop rt stdout ?s0 of
         Returned s1 \<Rightarrow> line_loop rt stdout (ib_assign stdout (ib_buf stdout s1 @ u) s1)
       | Raised e s1 \<Rightarrow> Raised e (ib_assign stdout (ib_buf stdout s1 @ u) s1))"
    using line_loop_append [of rt stdout ?s0 u]
    by (simp add: child_data_cb_def tu ib_assign_twice del: concat.simps)
  have f: "child_data_cb rt stdout c s = line_loop rt stdout ?s0"
    by (simp add: child_data_cb_def t)
  show ?case
  proof (cases "line_loop rt stdout ?s0")
    case (Returned s1)
    have n: "child_data_cb rt stdout (concat (c2 # cs)) s1
        = line_loop rt stdout (ib_assign stdout (ib_buf stdout s1 @ u) s1)"
      by (simp add: child_data_cb_def u del: concat.simps)
    from Cons(2) have d: "\<forall>c \<in> set cs. decode_utf8 c \<noteq> None" "decode_utf8 c2 \<noteq> None"
      by simp_all
    have e1: "feed_chunks rt stdout (c # c2 # cs) s = feed_chunks rt stdout (c2 # cs) s1"
      using f Returned by simp
    have e2: "child_data_cb rt stdout (concat (c # c2 # cs)) s
        = child_data_cb rt stdout (concat (c2 # cs)) s1"
      using w Returned n by simp
    have e3: "unfed_chunks rt stdout (c # c2 # cs) s = unfed_chunks rt stdout (c2 # cs) s1"
      using f Returned by simp
    show ?thesis unfolding e1 e2 e3 by (rule Cons(1) [OF d])
  next
    case (Raised e s1)
    have e1: "feed_chunks rt stdout (c # c2 # cs) s = Raised e s1"
      using f Raised by simp
    have e3: "unfed_chunks rt stdout (c # c2 # cs) s = c2 # cs"
      using f Raised by simp
    have "child_data_cb rt stdout (concat (c # c2 # cs)) s
        = Raised e (ib_assign stdout (ib_buf stdout s1 @ u) s1)"
      using w Raised by simp
    with u have "decode_utf8 (concat (c2 # cs)) = Some u
        \<and> child_data_cb rt stdout (concat (c # c2 # cs)) s
            = Raised e (ib_assign stdout (ib_buf stdout s1 @ u) s1)"
      by (rule conjI)
    then have "\<exists>t. decode_utf8 (concat (c2 # cs)) = Some t
        \<and> child_data_cb rt stdout (concat (c # c2 # cs)) s
            = Raised e (ib_assign stdout (ib_buf stdout s1 @ t) s1)"
      by (rule exI)
    then show ?thesis unfolding e1 e3 by simp
  qed
qed

text \<open>
  C1, as stated, fails for a byte sequence cut inside a character: the two bytes of
  U+00E9 fed in one call are decoded and stay in the buffer, while fed one byte at a time
  the first call raises \<open>UnicodeDecodeError\<close>, each chunk being decoded on its own.
\<close>

theorem chunked_decoding_counterexample:
  "feed_chunks ascii_only False [[0xC3], [0xA9]] init = Raised UnicodeDecodeError init
   \<and> child_data_cb ascii_only False (concat [[0xC3], [0xA9]]) init
       = Returned (init\<lparr>error_buffer := [233]\<rparr>)"
proof
  have "decode_utf8 [0xC3] = None"
    by (simp add: decode_utf8_def utf8.simps utf8_first_def)
  then show "feed_chunks ascii_only False [[0xC3], [0xA9]] init = Raised UnicodeDecodeError init"
    by (simp add: child_data_cb_def)
  have d: "decode_utf8 [0xC3, 0xA9] = Some [233]"
    by (simp add: decode_utf8_def utf8.simps utf8_first_def cont_def)
  have "10 \<notin> set (ib_buf False (init\<lparr>error_buffer := [233]\<rparr>))"
    by (simp add: ib_buf_def)
  then show "child_data_cb ascii_only False (concat [[0xC3], [0xA9]]) init
       = Returned (init\<lparr>error_buffer := [233]\<rparr>)"
    by (simp add: child_data_cb_def d ib_assign_def ib_buf_def [of False init]
        init_def [THEN arg_cong, of error_buffer] line_loop_done)
qed

text \<open>
  C1, amended. For chunks that are each valid UTF-8 on their own (every chunk of ASCII
  is), feeding them one at a time to \<open>child_data_cb\<close> on one stream does what feeding
  their concatenation in a single call does. When no call raises, the single call
  returns the same state: the same lines were handled in the same order, and the
  buffer of the stream holds the text after the last line feed and no line feed. When a
  line makes \<open>child_stdout_line_cb\<close> raise, the single call raises the same exception
  after the same lines, in the same state but for the buffer: it already holds, behind
  what the chunked calls left there, exactly the decoded text of the chunks that were
  not fed any more (\<open>unfed_chunks\<close>).
\<close>

theorem chunks_same_as_whole:
  assumes "cs \<noteq> []" and "\<forall>c \<in> set cs. decode_utf8 c \<noteq> None"
  shows "case feed_chunks rt stdout cs s of
           Returned s' \<Rightarrow>
             child_data_cb rt stdout (concat cs) s = Returned s'
             \<and> 10 \<notin> set (ib_buf stdout s')
             \<and> (\<exists>t d. decode_utf8 (concat cs) = Some t
                      \<and> ib_buf stdout s @ t = d @ ib_buf stdout s'
                      \<and> (d = [] \<or> last d = 10))
         | Raised e s' \<Rightarrow>
             \<exists>t. decode_utf8 (concat (unfed_chunks rt stdout cs s)) = Some t
                 \<and> child_data_cb rt stdout (concat cs) s
                     = Raised e (ib_assign stdout (ib_buf stdout s' @ t) s')"
proof -
  from assms obtain c cs' where cs: "cs = c # cs'"
    and d: "\<forall>c \<in> set cs'. decode_utf8 c \<noteq> None" "decode_utf8 c \<noteq> None"
    by (cases cs) auto
  note w = feed_chunks_whole [OF d, of rt stdout s]
  show ?thesis
  proof (cases "feed_chunks rt stdout cs s")
    case (Raised e s')
    with w cs show ?thesis by simp
  next
    case (Returned s')
    with w cs have r: "child_data_cb rt stdout (concat cs) s = Returned s'" by simp
    from assms(2) obtain t where t: "decode_utf8 (concat cs) = Some t"
      using decode_utf8_concat by blast
    with r have l: "line_loop rt stdout (ib_assign stdout (ib_buf stdout s @ t) s) = Returned s'"
      by (simp add: child_data_cb_def)
    have b: "ib_buf stdout (ib_assign stdout (ib_buf stdout s @ t) s) = ib_buf stdout s @ t"
      by (simp add: ib_buf_def ib_assign_def)
    from line_loop_returned_suffix [OF l] b obtain d
      where "ib_buf stdout s @ t = d @ ib_buf stdout s'" "d = [] \<or> last d = 10"
      by auto
    with t have "\<exists>t d. decode_utf8 (concat cs) = Some t
                      \<and> ib_buf stdout s @ t = d @ ib_buf stdout s'
                      \<and> (d = [] \<or> last d = 10)"
      by blast
    with r line_loop_returned_no_line [OF l] Returned show ?thesis by simp
  qed
qed


lemma warm_line_raises:
  "child_stdout_line_cb ascii_only (lit ''Color temperature: warm'') init
     = Raised ValueError init"
  by (simp add: child_stdout_line_cb_def re_match_def char_defs child_key_change_cb_def
      int10_def rstrip_def)

lemma warm_chunk_raises:
  "child_data_cb ascii_only True (ascii_bytes ''Color temperature: warm'' @ [10]) init
     = Raised ValueError init"
proof -
  have d: "decode_utf8 (ascii_bytes ''Color temperature: warm'' @ [10])
      = Some (lit ''Color temperature: warm'' @ [10])"
    by (simp add: decode_utf8_def ascii_bytes_def lit_def utf8.simps utf8_first_def)
  have b: "ib_buf True (ib_assign True (ib_buf True init @ lit ''Color temperature: warm'' @ [10]) init)
      = lit ''Color temperature: warm'' @ 10 # []"
    by (simp add: ib_buf_def ib_assign_def init_def)
  have n: "10 \<notin> set (lit ''Color temperature: warm'')" by (simp add: lit_def)
  have a: "ib_assign True []
        (ib_assign True (ib_buf True init @ lit ''Color temperature: warm'' @ [10]) init) = init"
    by (simp add: ib_assign_def init_def)
  show ?thesis
    unfolding child_data_cb_def d option.case line_loop_stdout [OF b n] a warm_line_raises
      result.case ..
qed

theorem chunks_same_as_whole_witness:
  "feed_chunks ascii_only False
     [ascii_bytes ''fatal '', ascii_bytes ''error'' @ [10] @ ascii_bytes ''xx''] init
     = Returned (init\<lparr>error_buffer := lit ''xx'', errors := lit ''fatal error'' @ [10]\<rparr>)
   \<and> child_data_cb ascii_only False
       (concat [ascii_bytes ''fatal '', ascii_bytes ''error'' @ [10] @ ascii_bytes ''xx'']) init
     = Returned (init\<lparr>error_buffer := lit ''xx'', errors := lit ''fatal error'' @ [10]\<rparr>)
   \<and> feed_chunks ascii_only True
     [ascii_bytes ''Color temperature: warm'' @ [10], ascii_bytes ''Period: Night'' @ [10]] init
     = Raised ValueError init
   \<and> child_data_cb ascii_only True
       (concat [ascii_bytes ''Color temperature: warm'' @ [10],
                ascii_bytes ''Period: Night'' @ [10]]) init
     = Raised ValueError (init\<lparr>input_buffer := lit ''Period: Night'' @ [10]\<rparr>)"
proof -
  have returned:
    "feed_chunks ascii_only False
     [ascii_bytes ''fatal '', ascii_bytes ''error'' @ [10] @ ascii_bytes ''xx''] init
     = Returned (init\<lparr>error_buffer := lit ''xx'', errors := lit ''fatal error'' @ [10]\<rparr>)
   \<and> child_data_cb ascii_only False
       (concat [ascii_bytes ''fatal '', ascii_bytes ''error'' @ [10] @ ascii_bytes ''xx'']) init
     = Returned (init\<lparr>error_buffer := lit ''xx'', errors := lit ''fatal error'' @ [10]\<rparr>)"
  proof -
    let ?c2 = "ascii_bytes ''error'' @ [10] @ ascii_bytes ''xx''"
    let ?cs = "[ascii_bytes ''fatal '', ?c2]"
    let ?s1 = "init\<lparr>error_buffer := lit ''fatal ''\<rparr>"
    let ?s2 = "init\<lparr>error_buffer := lit ''xx'', errors := lit ''fatal error'' @ [10]\<rparr>"
    have d2: "decode_utf8 ?c2 = Some (lit ''error'' @ [10] @ lit ''xx'')"
      by (simp add: decode_utf8_def ascii_bytes_def lit_def utf8.simps utf8_first_def)
    have b: "ib_buf False (ib_assign False (ib_buf False ?s1 @ lit ''error'' @ [10] @ lit ''xx'') ?s1)
        = lit ''fatal error'' @ 10 # lit ''xx''"
      by (simp add: ib_buf_def ib_assign_def lit_def)
    have n: "10 \<notin> set (lit ''fatal error'')" by (simp add: lit_def)
    have e: "(ib_assign False (lit ''xx'')
                (ib_assign False (ib_buf False ?s1 @ lit ''error'' @ [10] @ lit ''xx'') ?s1))
              \<lparr>errors := errors (ib_assign False (lit ''xx'')
                  (ib_assign False (ib_buf False ?s1 @ lit ''error'' @ [10] @ lit ''xx'') ?s1))
                @ lit ''fatal error'' @ [10]\<rparr> = ?s2"
      by (simp add: ib_assign_def init_def)
    have "10 \<notin> set (ib_buf False ?s2)" by (simp add: ib_buf_def lit_def)
    then have l: "line_loop ascii_only False ?s2 = Returned ?s2" by (rule line_loop_done)
    have c2: "child_data_cb ascii_only False ?c2 ?s1 = Returned ?s2"
      unfolding child_data_cb_def d2 option.case line_loop_stderr [OF b n] e l ..
    have f: "feed_chunks ascii_only False ?cs init = Returned ?s2"
      by (simp only: feed_chunks.simps fatal_prefix_buffered c2 result.case)
    have h1: "?cs \<noteq> []" by simp
    have h2: "\<forall>c \<in> set ?cs. decode_utf8 c \<noteq> None"
      using d2 decode_ascii_fatal by simp
    from chunks_same_as_whole [OF h1 h2, of ascii_only False init] f
    have "child_data_cb ascii_only False (concat ?cs) init = Returned ?s2"
      by (simp only: result.case)
    with f show ?thesis by (rule conjI)
  qed
  have raised:
    "feed_chunks ascii_only True
     [ascii_bytes ''Color temperature: warm'' @ [10], ascii_bytes ''Period: Night'' @ [10]] init
     = Raised ValueError init
   \<and> child_data_cb ascii_only True
       (concat [ascii_bytes ''Color temperature: warm'' @ [10],
                ascii_bytes ''Period: Night'' @ [10]]) init
     = Raised ValueError (init\<lparr>input_buffer := lit ''Period: Night'' @ [10]\<rparr>)"
  proof -
    let ?c1 = "ascii_bytes ''Color temperature: warm'' @ [10]"
    let ?c2 = "ascii_bytes ''Period: Night'' @ [10]"
    let ?cs = "[?c1, ?c2]"
    have d1: "decode_utf8 ?c1 = Some (lit ''Color temperature: warm'' @ [10])"
      by (simp add: decode_utf8_def ascii_bytes_def lit_def utf8.simps utf8_first_def)
    have d2: "decode_utf8 ?c2 = Some (lit ''Period: Night'' @ [10])"
      by (simp add: decode_utf8_def ascii_bytes_def lit_def utf8.simps utf8_first_def)
    have f: "feed_chunks ascii_only True ?cs init = Raised ValueError init"
      by (simp only: feed_chunks.simps warm_chunk_raises result.case)
    have u: "unfed_chunks ascii_only True ?cs init = [?c2]"
      by (simp only: unfed_chunks.simps warm_chunk_raises result.case)
    have h1: "?cs \<noteq> []" by simp
    have h2: "\<forall>c \<in> set ?cs. decode_utf8 c \<noteq> None"
      using d1 d2 by simp
    from chunks_same_as_whole [OF h1 h2, of ascii_only True init]
    obtain t where "decode_utf8 (concat [?c2]) = Some t"
      and w: "child_data_cb ascii_only True (concat ?cs) init
          = Raised ValueError (ib_assign True (ib_buf True init @ t) init)"
      unfolding f u result.case by blast
    with d2 have "t = lit ''Period: Night'' @ [10]" by simp
    with w have "child_data_cb ascii_only True (concat ?cs) init
        = Raised ValueError (init\<lparr>input_buffer := lit ''Period: Night'' @ [10]\<rparr>)"
      by (simp add: ib_assign_def ib_buf_def init_def)
    with f show ?thesis by (rule conjI)
  qed
  from returned raised show ?thesis by blast
qed

subsection \<open>The lines of standard error\<close>

text \<open>
  On the standard error stream every complete line goes to \<open>errors\<close> with its line feed,
  in order: \<open>errors\<close> followed by the buffer is all the text received so far.
\<close>

lemma line_loop_stderr_text:
  "line_loop rt False s = Returned s' \<Longrightarrow>
   errors s' @ error_buffer s' = errors s @ error_buffer s"
proof (induction "length (ib_buf False s)" arbitrary: s rule: less_induct)
  case less
  show ?case
  proof (cases False s rule: line_loop_cases)
    case no_line
    with less(2) show ?thesis by (simp add: line_loop_done)
  next
    case (stdout_line first rest)
    then show ?thesis by simp
  next
    case (stderr_line first rest)
    let ?s' = "(ib_assign False rest s)\<lparr>errors := errors (ib_assign False rest s) @ first @ [10]\<rparr>"
    from stderr_line have "length (ib_buf False ?s') < length (ib_buf False s)"
      by (simp add: ib_buf_def ib_assign_def)
    moreover from less(2) have "line_loop rt False ?s' = Returned s'"
      by (simp add: line_loop_stderr [OF stderr_line(2,3)])
    ultimately have "errors s' @ error_buffer s' = errors ?s' @ error_buffer ?s'"
      by (rule less(1))
    with stderr_line(2) show ?thesis by (simp add: ib_buf_def ib_assign_def)
  qed
qed

lemma stderr_lines_accumulate:
  assumes "decode_utf8 chunk = Some t"
  shows "\<exists>s'. child_data_cb rt False chunk s = Returned s'
            \<and> errors s' @ error_buffer s' = errors s @ error_buffer s @ t
            \<and> 10 \<notin> set (error_buffer s')"
proof -
  let ?s0 = "ib_assign False (ib_buf False s @ t) s"
  obtain s' where l: "line_loop rt False ?s0 = Returned s'"
    using line_loop_stderr_frame [of rt ?s0] by blast
  from line_loop_stderr_text [OF l]
  have "errors s' @ error_buffer s' = errors s @ error_buffer s @ t"
    by (simp add: ib_buf_def ib_assign_def)
  moreover from line_loop_returned_no_line [OF l] have "10 \<notin> set (error_buffer s')"
    by (simp add: ib_buf_def)
  ultimately show ?thesis using l assms by (simp add: child_data_cb_def)
qed

end
